theory Spec2Isabelle
  imports Main "HOL-Library.Sublist"
begin

section \<open>Python string operations used by the pipeline\<close>

text \<open>
  Strings are byte lists (UTF-8). The pipeline uses four operations of Python's \<open>str\<close>:
  the substring test \<open>a in b\<close>, \<open>replace\<close>, \<open>strip\<close> and \<open>split\<close>.
\<close>

fun py_in :: "string \<Rightarrow> string \<Rightarrow> bool" where
  "py_in sub [] = (sub = [])"
| "py_in sub (c # cs) = (prefix sub (c # cs) \<or> py_in sub cs)"

text \<open>
  \<open>s.replace(old, new)\<close>: every non-overlapping occurrence of \<open>old\<close>, found scanning from
  the left, is replaced. With an empty \<open>old\<close> Python puts \<open>new\<close> around every character.
\<close>

function py_replace :: "string \<Rightarrow> string \<Rightarrow> string \<Rightarrow> string" where
  "py_replace old new [] = (if old = [] then new else [])"
| "py_replace old new (c # cs) =
     (if old = [] then new @ c # py_replace old new cs
      else if prefix old (c # cs) then new @ py_replace old new (drop (length old) (c # cs))
      else c # py_replace old new cs)"
  by pat_completeness auto
termination
  by (relation "measure (\<lambda>(old, new, s). length s)") auto

text \<open>
  \<open>s.strip()\<close> removes the white-space characters of Python (\<open>str.isspace\<close>) from both
  ends. A Python character is one UTF-8 sequence of the byte string: a byte that is not a
  continuation byte (\<open>10xxxxxx\<close>) with the continuation bytes that follow it.
\<close>

definition is_continuation :: "char \<Rightarrow> bool" where
  "is_continuation c = (digit7 c \<and> \<not> digit6 c)"

function utf8_chars :: "string \<Rightarrow> string list" where
  "utf8_chars [] = []"
| "utf8_chars (c # cs) =
     (c # takeWhile is_continuation cs) # utf8_chars (dropWhile is_continuation cs)"
  by pat_completeness auto
termination
  by (relation "measure length") (auto simp: length_dropWhile_le le_imp_less_Suc)

text \<open>
  The white-space characters, in UTF-8: U+0009 to U+000D, U+001C to U+0020, U+0085,
  U+00A0, U+1680, U+2000 to U+200A, U+2028, U+2029, U+202F, U+205F and U+3000.
\<close>

definition space_codes :: "string list" where
  "space_codes =
     [[CHR 0x09], [CHR 0x0A], [CHR 0x0B], [CHR 0x0C], [CHR 0x0D],
      [CHR 0x1C], [CHR 0x1D], [CHR 0x1E], [CHR 0x1F], [CHR 0x20],
      [CHR 0xC2, CHR 0x85], [CHR 0xC2, CHR 0xA0], [CHR 0xE1, CHR 0x9A, CHR 0x80],
      [CHR 0xE2, CHR 0x80, CHR 0x80], [CHR 0xE2, CHR 0x80, CHR 0x81],
      [CHR 0xE2, CHR 0x80, CHR 0x82], [CHR 0xE2, CHR 0x80, CHR 0x83],
      [CHR 0xE2, CHR 0x80, CHR 0x84], [CHR 0xE2, CHR 0x80, CHR 0x85],
      [CHR 0xE2, CHR 0x80, CHR 0x86], [CHR 0xE2, CHR 0x80, CHR 0x87],
      [CHR 0xE2, CHR 0x80, CHR 0x88], [CHR 0xE2, CHR 0x80, CHR 0x89],
      [CHR 0xE2, CHR 0x80, CHR 0x8A], [CHR 0xE2, CHR 0x80, CHR 0xA8],
      [CHR 0xE2, CHR 0x80, CHR 0xA9], [CHR 0xE2, CHR 0x80, CHR 0xAF],
      [CHR 0xE2, CHR 0x81, CHR 0x9F], [CHR 0xE3, CHR 0x80, CHR 0x80]]"

definition is_space :: "string \<Rightarrow> bool" where
  "is_space ch = (ch \<in> set space_codes)"

definition py_strip :: "string \<Rightarrow> string" where
  "py_strip s = concat (rev (dropWhile is_space (rev (dropWhile is_space (utf8_chars s)))))"

text \<open>
  \<open>s.split(sep)\<close> for a non-empty separator; \<open>cur\<close> is the piece being read. The only
  separator of the source is the literal \<open>'_v'\<close>.
\<close>

function py_split_from :: "string \<Rightarrow> string \<Rightarrow> string \<Rightarrow> string list" where
  "py_split_from sep cur [] = [cur]"
| "py_split_from sep cur (c # cs) =
     (if sep \<noteq> [] \<and> prefix sep (c # cs)
      then cur # py_split_from sep [] (drop (length sep) (c # cs))
      else py_split_from sep (cur @ [c]) cs)"
  by pat_completeness auto
termination
  by (relation "measure (\<lambda>(sep, cur, s). length s)") auto

definition py_split :: "string \<Rightarrow> string \<Rightarrow> string list" where
  "py_split sep s = py_split_from sep [] s"

section \<open>The article store\<close>

datatype crawl_status = pending | url_filtered | crawling | crawl_success | crawl_failed

record news_row =
  news_id :: nat
  title :: string
  pub_date :: int
  url :: string
  search_keyword :: string
  api_request_date :: int
  crawl_status :: crawl_status
  url_filter_version :: "string option"
  crawl_attempt_count :: nat

record crawled_row =
  c_news_id :: nat
  content_text :: string
  c_crawler_version :: string
  response_time_ms :: nat
  crawled_at :: int

record db =
  naver_news :: "news_row list"
  crawled_news :: "crawled_row list"

datatype exn = IntegrityError | DatabaseError | ValueError | KeyError | IOError

text \<open>
  The statements the pipeline sends to the store. \<open>store_error\<close> of the world below says
  which of them the store answers with an error of its own (a lost connection, a value
  it rejects), beyond the key conflicts that the model computes itself.
\<close>

datatype stmt =
    SelectPending
  | UpdateFiltered "nat list"
  | UpdateStamped "nat list"
  | SelectEligible
  | UpdateClaim nat
  | InsertCrawled nat
  | UpdateStatus nat crawl_status
  | SelectRecent
  | InsertNews string

text \<open>
  A psycopg2 connection: statements act on the working copy of the open transaction,
  \<open>commit\<close> publishes it, \<open>rollback\<close> discards it, and closing the connection leaves the
  store at what was committed.
\<close>

record conn =
  committed :: db
  working :: db

definition connect :: "db \<Rightarrow> conn" where
  "connect store = \<lparr>committed = store, working = store\<rparr>"

definition commit :: "conn \<Rightarrow> conn" where
  "commit c = c\<lparr>committed := working c\<rparr>"

definition rollback :: "conn \<Rightarrow> conn" where
  "rollback c = c\<lparr>working := committed c\<rparr>"

definition close :: "conn \<Rightarrow> db" where
  "close c = committed c"

definition execute :: "(stmt \<Rightarrow> exn option) \<Rightarrow> stmt \<Rightarrow> (db \<Rightarrow> exn + db) \<Rightarrow> conn \<Rightarrow> exn + conn" where
  "execute err s f c =
     (case err s of
        Some e \<Rightarrow> Inl e
      | None \<Rightarrow> (case f (working c) of Inl e \<Rightarrow> Inl e | Inr d \<Rightarrow> Inr (c\<lparr>working := d\<rparr>)))"

section \<open>The world outside the pipeline\<close>

text \<open>
  The collaborators the source calls and does not define: the blocklist file
  (\<open>open\<close> and its lines), \<open>urlparse(url).netloc\<close>, the extraction library
  (\<open>Article.download\<close>, \<open>parse\<close> and \<open>text\<close>), the clock, the search provider
  (\<open>requests.get\<close>, \<open>raise_for_status\<close> and the \<open>items\<close> of the JSON answer),
  \<open>parsedate_to_datetime\<close>, and the errors of the store.
\<close>

type_synonym item = "string \<rightharpoonup> string"

record world =
  read_lines :: "string \<Rightarrow> exn + string list"
  netloc :: "string \<Rightarrow> exn + string"
  article_text :: "string \<Rightarrow> exn + string"
  elapsed_ms :: "string \<Rightarrow> nat"
  now :: int
  api_get :: "string \<Rightarrow> int \<Rightarrow> int \<Rightarrow> exn + item list option"
  parsedate :: "string \<Rightarrow> exn + int"
  store_error :: "stmt \<Rightarrow> exn option"

section \<open>news\_crawler.py: the crawler object and the classification pass\<close>

record crawler =
  filter_file_path :: string
  crawler_version :: string
  filter_version :: string
  filtered_domains :: "string set"
  max_workers :: nat

text \<open>
  \<open>_extract_filter_version\<close>: the piece after the last \<open>_v\<close>, without \<open>.txt\<close>, behind
  a \<open>v\<close>. Its handler (\<open>return 'v1.00'\<close>) is never reached for a string.
\<close>

definition extract_filter_version :: "string \<Rightarrow> string" where
  "extract_filter_version file_path =
     ''v'' @ py_replace ''.txt'' '''' (last (py_split ''_v'' file_path))"

definition load_filter_domains :: "world \<Rightarrow> string \<Rightarrow> string set" where
  "load_filter_domains w path =
     (case read_lines w path of
        Inl e \<Rightarrow> {}
      | Inr lines \<Rightarrow>
          set (map (\<lambda>line. py_replace ''www.'' '''' (py_strip line))
                   (filter (\<lambda>line. py_strip line \<noteq> []) lines)))"

definition init :: "world \<Rightarrow> string \<Rightarrow> string \<Rightarrow> nat \<Rightarrow> crawler" where
  "init w path version workers =
     \<lparr>filter_file_path = path,
      crawler_version = version,
      filter_version = extract_filter_version path,
      filtered_domains = load_filter_domains w path,
      max_workers = workers\<rparr>"

definition is_url_filtered :: "crawler \<Rightarrow> world \<Rightarrow> string \<Rightarrow> bool" where
  "is_url_filtered self w u =
     (case netloc w u of
        Inl e \<Rightarrow> False
      | Inr nl \<Rightarrow>
          (let domain = py_replace ''www.'' '''' nl
           in \<exists>fd \<in> filtered_domains self. py_in fd domain \<or> py_in domain fd))"

definition select_pending :: "db \<Rightarrow> (nat \<times> string) list" where
  "select_pending d =
     map (\<lambda>r. (news_id r, url r))
         (rev (sort_key news_id (filter (\<lambda>r. crawl_status r = pending) (naver_news d))))"

definition update_filtered :: "string \<Rightarrow> nat list \<Rightarrow> db \<Rightarrow> db" where
  "update_filtered v ids d =
     d\<lparr>naver_news :=
         map (\<lambda>r. if news_id r \<in> set ids
                  then r\<lparr>crawl_status := url_filtered, url_filter_version := Some v\<rparr>
                  else r)
             (naver_news d)\<rparr>"

definition update_stamped :: "string \<Rightarrow> nat list \<Rightarrow> db \<Rightarrow> db" where
  "update_stamped v ids d =
     d\<lparr>naver_news :=
         map (\<lambda>r. if news_id r \<in> set ids then r\<lparr>url_filter_version := Some v\<rparr> else r)
             (naver_news d)\<rparr>"

text \<open>
  The \<open>try\<close> block of \<open>filter_urls\<close>: \<open>Inl\<close> carries the exception and the connection at
  the point where it was raised, \<open>Inr\<close> the returned count.
\<close>

definition filter_urls_try :: "crawler \<Rightarrow> world \<Rightarrow> conn \<Rightarrow> (exn \<times> conn) + (nat \<times> conn)" where
  "filter_urls_try self w c =
     (case store_error w SelectPending of
        Some e \<Rightarrow> Inl (e, c)
      | None \<Rightarrow>
          (let news_list = select_pending (working c) in
           if news_list = [] then Inr (0, c)
           else
             (let filtered_ids = map fst (filter (\<lambda>(i, u). is_url_filtered self w u) news_list);
                  passed_ids = map fst (filter (\<lambda>(i, u). \<not> is_url_filtered self w u) news_list)
              in case (if filtered_ids \<noteq> []
                       then execute (store_error w) (UpdateFiltered filtered_ids)
                              (\<lambda>d. Inr (update_filtered (filter_version self) filtered_ids d)) c
                       else Inr c) of
                   Inl e \<Rightarrow> Inl (e, c)
                 | Inr c1 \<Rightarrow>
                     (case (if passed_ids \<noteq> []
                            then execute (store_error w) (UpdateStamped passed_ids)
                                   (\<lambda>d. Inr (update_stamped (filter_version self) passed_ids d)) c1
                            else Inr c1) of
                        Inl e \<Rightarrow> Inl (e, c1)
                      | Inr c2 \<Rightarrow> Inr (length filtered_ids, commit c2)))))"

definition filter_urls :: "crawler \<Rightarrow> world \<Rightarrow> db \<Rightarrow> (exn + nat) \<times> db" where
  "filter_urls self w store =
     (case filter_urls_try self w (connect store) of
        Inl (e, c) \<Rightarrow> (Inl e, close (rollback c))
      | Inr (n, c) \<Rightarrow> (Inr n, close c))"

section \<open>news\_crawler.py: fetching one article\<close>

definition crawl_article :: "crawler \<Rightarrow> world \<Rightarrow> string \<Rightarrow> string option \<times> nat" where
  "crawl_article self w u =
     (case article_text w u of
        Inl e \<Rightarrow> (None, elapsed_ms w u)
      | Inr t \<Rightarrow>
          (let text = py_strip t
           in (if text \<noteq> [] then Some text else None, elapsed_ms w u)))"

definition update_claim :: "nat \<Rightarrow> db \<Rightarrow> db" where
  "update_claim nid d =
     d\<lparr>naver_news :=
         map (\<lambda>r. if news_id r = nid
                  then r\<lparr>crawl_status := crawling,
                         crawl_attempt_count := crawl_attempt_count r + 1\<rparr>
                  else r)
             (naver_news d)\<rparr>"

definition update_status :: "nat \<Rightarrow> crawl_status \<Rightarrow> db \<Rightarrow> db" where
  "update_status nid st d =
     d\<lparr>naver_news :=
         map (\<lambda>r. if news_id r = nid then r\<lparr>crawl_status := st\<rparr> else r) (naver_news d)\<rparr>"

text \<open>
  Modelled from the spec: the declaration of the table \<open>crawled_news\<close> is not in the
  source. The spec gives it at most one row per article id and a foreign key to the
  article; the store answers a violation of either with \<open>IntegrityError\<close>.
\<close>

definition insert_crawled :: "crawled_row \<Rightarrow> db \<Rightarrow> exn + db" where
  "insert_crawled row d =
     (if c_news_id row \<in> set (map c_news_id (crawled_news d)) then Inl IntegrityError
      else if c_news_id row \<notin> set (map news_id (naver_news d)) then Inl IntegrityError
      else Inr (d\<lparr>crawled_news := crawled_news d @ [row]\<rparr>))"

datatype outcome = success | failed

type_synonym news_data = "nat \<times> string \<times> string"

text \<open>
  \<open>_process_single_news\<close> is two transactions on the worker's own connection. The first
  (lines 161 to 167) claims the record and commits. \<open>Inl\<close> is an exception that reaches
  the outer handler, which rolls back and returns \<open>'failed'\<close>.
\<close>

definition claim :: "world \<Rightarrow> news_data \<Rightarrow> db \<Rightarrow> exn + db" where
  "claim w nd store =
     (case nd of (nid, u, t) \<Rightarrow>
        (case execute (store_error w) (UpdateClaim nid) (\<lambda>d. Inr (update_claim nid d))
                (connect store) of
           Inl e \<Rightarrow> Inl e
         | Inr c \<Rightarrow> Inr (close (commit c))))"

text \<open>
  The inner \<open>try\<close> (lines 176 to 191): insert the content row, set the status, commit.
  \<open>Inl\<close> carries the exception and the connection where it was raised.
\<close>

definition store_content :: "crawler \<Rightarrow> world \<Rightarrow> nat \<Rightarrow> string \<Rightarrow> nat \<Rightarrow> conn \<Rightarrow> (exn \<times> conn) + conn" where
  "store_content self w nid text ms c =
     (case execute (store_error w) (InsertCrawled nid)
             (insert_crawled \<lparr>c_news_id = nid, content_text = text,
                              c_crawler_version = crawler_version self,
                              response_time_ms = ms, crawled_at = now w\<rparr>) c of
        Inl e \<Rightarrow> Inl (e, c)
      | Inr c1 \<Rightarrow>
          (case execute (store_error w) (UpdateStatus nid crawl_success)
                  (\<lambda>d. Inr (update_status nid crawl_success d)) c1 of
             Inl e \<Rightarrow> Inl (e, c1)
           | Inr c2 \<Rightarrow> Inr (commit c2)))"

text \<open>
  The second transaction (lines 172 to 218): fetch, then record the outcome. Every
  exception other than the \<open>IntegrityError\<close> of the inner \<open>try\<close> reaches the outer handler
  (lines 215 to 218): \<open>conn.rollback()\<close> and \<open>return 'failed'\<close>.
\<close>

definition finalize :: "crawler \<Rightarrow> world \<Rightarrow> news_data \<Rightarrow> db \<Rightarrow> outcome \<times> db" where
  "finalize self w nd store =
     (case nd of (nid, u, t) \<Rightarrow>
        (let c = connect store in
         case crawl_article self w u of
           (Some text, ms) \<Rightarrow>
             (case store_content self w nid text ms c of
                Inr c1 \<Rightarrow> (success, close c1)
              | Inl (e, c1) \<Rightarrow>
                  if e = IntegrityError
                  then (let c2 = rollback c1
                        in case execute (store_error w) (UpdateStatus nid crawl_success)
                                  (\<lambda>d. Inr (update_status nid crawl_success d)) c2 of
                             Inl e' \<Rightarrow> (failed, close (rollback c2))
                           | Inr c3 \<Rightarrow> (success, close (commit c3)))
                  else (failed, close (rollback c1)))
         | (None, ms) \<Rightarrow>
             (case execute (store_error w) (UpdateStatus nid crawl_failed)
                     (\<lambda>d. Inr (update_status nid crawl_failed d)) c of
                Inl e \<Rightarrow> (failed, close (rollback c))
              | Inr c1 \<Rightarrow> (failed, close (commit c1)))))"

definition process_single_news :: "crawler \<Rightarrow> world \<Rightarrow> news_data \<Rightarrow> db \<Rightarrow> outcome \<times> db" where
  "process_single_news self w nd store =
     (case claim w nd store of
        Inl e \<Rightarrow> (failed, store)
      | Inr store1 \<Rightarrow> finalize self w nd store1)"

section \<open>news\_crawler.py: the crawl stage and the whole run\<close>

definition select_eligible :: "db \<Rightarrow> news_data list" where
  "select_eligible d =
     map (\<lambda>r. (news_id r, url r, title r))
         (rev (sort_key pub_date
            (filter (\<lambda>r. crawl_status r = pending \<and> url_filter_version r \<noteq> None)
               (naver_news d))))"

text \<open>
  The worker pool, run as one schedule: the tasks in the order of the selected list, each
  to its end. The counters are those of the \<open>as_completed\<close> loop.
\<close>

fun run_pool :: "crawler \<Rightarrow> world \<Rightarrow> news_data list \<Rightarrow> nat \<times> nat \<times> db \<Rightarrow> nat \<times> nat \<times> db" where
  "run_pool self w [] acc = acc"
| "run_pool self w (nd # nds) (success_count, failed_count, store) =
     (case process_single_news self w nd store of
        (success, store1) \<Rightarrow> run_pool self w nds (success_count + 1, failed_count, store1)
      | (failed, store1) \<Rightarrow> run_pool self w nds (success_count, failed_count + 1, store1))"

definition crawl_news :: "crawler \<Rightarrow> world \<Rightarrow> db \<Rightarrow> (exn + nat \<times> nat) \<times> db" where
  "crawl_news self w store =
     (case store_error w SelectEligible of
        Some e \<Rightarrow> (Inl e, store)
      | None \<Rightarrow>
          (let news_list = select_eligible store in
           if news_list = [] then (Inr (0, 0), store)
           else (case run_pool self w news_list (0, 0, store) of
                   (success_count, failed_count, store1) \<Rightarrow>
                     (Inr (success_count, failed_count), store1))))"

text \<open>\<open>run\<close> returns nothing; the triple is the summary it logs.\<close>

definition run :: "crawler \<Rightarrow> world \<Rightarrow> db \<Rightarrow> (exn + nat \<times> nat \<times> nat) \<times> db" where
  "run self w store =
     (case filter_urls self w store of
        (Inl e, store1) \<Rightarrow> (Inl e, store1)
      | (Inr filtered_count, store1) \<Rightarrow>
          (case crawl_news self w store1 of
             (Inl e, store2) \<Rightarrow> (Inl e, store2)
           | (Inr (success_count, failed_count), store2) \<Rightarrow>
               (Inr (filtered_count, success_count, failed_count), store2)))"

section \<open>Two workers on one article\<close>

text \<open>
  Each worker has its own connection and its own fetch, so a worker is a crawler, a world
  and a task. A transaction is one atomic step on the shared store: the store makes a
  second insert of the same key wait for the first to commit and then fail. A schedule
  says which worker moves next.
\<close>

datatype phase = Unclaimed | Claimed | Finished outcome

type_synonym worker = "crawler \<times> world \<times> news_data"

definition worker_step :: "worker \<Rightarrow> phase \<times> db \<Rightarrow> phase \<times> db" where
  "worker_step wk st =
     (case wk of (self, w, nd) \<Rightarrow>
        (case st of
           (Unclaimed, store) \<Rightarrow>
             (case claim w nd store of
                Inl e \<Rightarrow> (Finished failed, store)
              | Inr store1 \<Rightarrow> (Claimed, store1))
         | (Claimed, store) \<Rightarrow>
             (case finalize self w nd store of (out, store1) \<Rightarrow> (Finished out, store1))
         | (Finished out, store) \<Rightarrow> (Finished out, store)))"

fun race :: "worker \<Rightarrow> worker \<Rightarrow> bool list \<Rightarrow> phase \<times> phase \<times> db \<Rightarrow> phase \<times> phase \<times> db" where
  "race a b [] st = st"
| "race a b (first # sched) (pa, pb, store) =
     (if first
      then (case worker_step a (pa, store) of (pa1, store1) \<Rightarrow> race a b sched (pa1, pb, store1))
      else (case worker_step b (pb, store) of (pb1, store1) \<Rightarrow> race a b sched (pa, pb1, store1)))"

text \<open>
  The phase a worker reaches with one more turn when nothing fails: it claims, then it
  finishes with \<open>'success'\<close>, then it has nothing left to do.
\<close>

definition advance :: "phase \<Rightarrow> phase" where
  "advance p = (case p of Unclaimed \<Rightarrow> Claimed | Claimed \<Rightarrow> Finished success | Finished out \<Rightarrow> Finished out)"

text \<open>What the race lemmas keep track of, for the article \<open>nid\<close>.\<close>

definition content_rows :: "nat \<Rightarrow> db \<Rightarrow> crawled_row list" where
  "content_rows nid d = filter (\<lambda>c. c_news_id c = nid) (crawled_news d)"

definition claimable :: "nat \<Rightarrow> db \<Rightarrow> bool" where
  "claimable nid d \<longleftrightarrow>
     nid \<in> set (map news_id (naver_news d)) \<and> length (content_rows nid d) \<le> 1"

definition settled :: "nat \<Rightarrow> db \<Rightarrow> bool" where
  "settled nid d \<longleftrightarrow>
     claimable nid d \<and> length (content_rows nid d) = 1 \<and>
     (\<forall>r \<in> set (naver_news d). news_id r = nid \<longrightarrow> crawl_status r = crawl_success)"

section \<open>collect\_naver\_news.py: the harvester\<close>

text \<open>
  \<open>re.sub('<.*?>', '', title)\<close>: from a \<open><\<close> the shortest run up to the next \<open>>\<close> is
  deleted, unless a line feed comes first (the dot does not match it).
\<close>

fun find_close :: "string \<Rightarrow> string option" where
  "find_close [] = None"
| "find_close (c # cs) =
     (if c = CHR ''>'' then Some cs else if c = CHR 0x0A then None else find_close cs)"

function strip_tags :: "string \<Rightarrow> string" where
  "strip_tags [] = []"
| "strip_tags (c # cs) =
     (if c = CHR ''<''
      then (case find_close cs of Some rest \<Rightarrow> strip_tags rest | None \<Rightarrow> c # strip_tags cs)
      else c # strip_tags cs)"
  by pat_completeness auto
termination
proof (relation "measure length")
  fix c :: char and cs rest :: string
  assume "find_close cs = Some rest"
  moreover have "find_close xs = Some r \<Longrightarrow> length r < length xs" for xs r
    by (induction xs) (auto split: if_splits)
  ultimately show "(rest, c # cs) \<in> measure length"
    by fastforce
qed auto

record parsed_item =
  p_title :: string
  p_pub_date :: int
  p_url :: string
  p_search_keyword :: string
  p_api_request_date :: int

definition parse_item :: "world \<Rightarrow> item \<Rightarrow> string \<Rightarrow> exn + parsed_item" where
  "parse_item w it kw =
     (case it ''title'' of
        None \<Rightarrow> Inl KeyError
      | Some t \<Rightarrow>
          (case it ''pubDate'' of
             None \<Rightarrow> Inl KeyError
           | Some pd \<Rightarrow>
               (case parsedate w pd of
                  Inl e \<Rightarrow> Inl e
                | Inr d \<Rightarrow>
                    (case it ''link'' of
                       None \<Rightarrow> Inl KeyError
                     | Some l \<Rightarrow>
                         Inr \<lparr>p_title = strip_tags t, p_pub_date = d, p_url = l,
                              p_search_keyword = kw, p_api_request_date = now w\<rparr>))))"

definition search_news :: "world \<Rightarrow> string \<Rightarrow> int \<Rightarrow> int \<Rightarrow> item list option option" where
  "search_news w query display start =
     (case api_get w query display start of Inl e \<Rightarrow> None | Inr result \<Rightarrow> Some result)"

text \<open>The trailing window of three days, in seconds.\<close>

definition get_existing_urls :: "world \<Rightarrow> conn \<Rightarrow> exn + string set" where
  "get_existing_urls w c =
     (case store_error w SelectRecent of
        Some e \<Rightarrow> Inl e
      | None \<Rightarrow>
          Inr (set (map url (filter (\<lambda>r. api_request_date r > now w - 259200)
                                    (naver_news (working c))))))"

text \<open>
  Modelled from the spec: the declaration of the table \<open>naver_news\<close> is not in the source.
  The spec gives a new record an opaque numeric id, the status \<open>pending\<close>, no filter
  version and an attempt count of zero. \<open>ON CONFLICT (url) DO NOTHING\<close> is in the source:
  a row whose URL is present is not inserted and the row count is 0.
\<close>

definition fresh_id :: "db \<Rightarrow> nat" where
  "fresh_id d = Suc (fold max (map news_id (naver_news d)) 0)"

definition insert_news_row :: "parsed_item \<Rightarrow> db \<Rightarrow> nat \<times> db" where
  "insert_news_row it d =
     (if p_url it \<in> set (map url (naver_news d)) then (0, d)
      else (1, d\<lparr>naver_news := naver_news d @
                   [\<lparr>news_id = fresh_id d, title = p_title it, pub_date = p_pub_date it,
                     url = p_url it, search_keyword = p_search_keyword it,
                     api_request_date = p_api_request_date it, crawl_status = pending,
                     url_filter_version = None, crawl_attempt_count = 0\<rparr>]\<rparr>))"

text \<open>
  The loop of \<open>insert_news\<close>: an item whose insert raises is logged, the connection is
  rolled back and the loop goes on; the count keeps what it had.
\<close>

fun insert_loop :: "world \<Rightarrow> parsed_item list \<Rightarrow> nat \<times> conn \<Rightarrow> nat \<times> conn" where
  "insert_loop w [] acc = acc"
| "insert_loop w (it # its) (inserted, c) =
     (case store_error w (InsertNews (p_url it)) of
        Some e \<Rightarrow> insert_loop w its (inserted, rollback c)
      | None \<Rightarrow>
          (case insert_news_row it (working c) of
             (rowcount, d) \<Rightarrow> insert_loop w its (inserted + rowcount, c\<lparr>working := d\<rparr>)))"

definition insert_news :: "world \<Rightarrow> parsed_item list \<Rightarrow> conn \<Rightarrow> nat \<times> conn" where
  "insert_news w news_items c =
     (if news_items = [] then (0, c)
      else (case insert_loop w news_items (0, c) of (inserted, c1) \<Rightarrow> (inserted, commit c1)))"

text \<open>
  The inner loop of \<open>collect\<close>: skip what either set has seen, parse the rest. An
  exception of \<open>item['link']\<close> or of \<open>parse_item\<close> leaves the loop and \<open>collect\<close>.
\<close>

fun dedup_parse :: "world \<Rightarrow> string \<Rightarrow> string set \<Rightarrow> item list \<Rightarrow>
    parsed_item list \<times> string set \<Rightarrow> exn + parsed_item list \<times> string set" where
  "dedup_parse w query existing [] acc = Inr acc"
| "dedup_parse w query existing (it # its) (new_items, seen) =
     (case it ''link'' of
        None \<Rightarrow> Inl KeyError
      | Some u \<Rightarrow>
          if u \<in> existing \<or> u \<in> seen then dedup_parse w query existing its (new_items, seen)
          else (case parse_item w it query of
                  Inl e \<Rightarrow> Inl e
                | Inr parsed \<Rightarrow>
                    dedup_parse w query existing its (new_items @ [parsed], insert u seen)))"

datatype log_msg = Progress int nat nat | NoMoreResults | SameTotal | ApiLimit

record harvest =
  collected :: int
  inserted_total :: nat
  start :: int
  collected_urls :: "string set"
  hconn :: conn
  log_lines :: "log_msg list"

datatype step = Break harvest | Next harvest | Raise exn harvest

text \<open>One pass through the body of the \<open>while\<close> loop of \<open>collect\<close> (lines 122 to 162).\<close>

definition collect_iter :: "world \<Rightarrow> string \<Rightarrow> int \<Rightarrow> string set \<Rightarrow> harvest \<Rightarrow> step" where
  "collect_iter w query total_count existing h =
     (let display = min 100 (total_count - collected h) in
      case search_news w query display (start h) of
        None \<Rightarrow> Break (h\<lparr>log_lines := log_lines h @ [NoMoreResults]\<rparr>)
      | Some None \<Rightarrow> Break (h\<lparr>log_lines := log_lines h @ [NoMoreResults]\<rparr>)
      | Some (Some []) \<Rightarrow> Break (h\<lparr>log_lines := log_lines h @ [NoMoreResults]\<rparr>)
      | Some (Some (it # its)) \<Rightarrow>
          (case dedup_parse w query existing (it # its) ([], collected_urls h) of
             Inl e \<Rightarrow> Raise e h
           | Inr (new_items, seen) \<Rightarrow>
               (case insert_news w new_items (hconn h) of
                  (inserted, c) \<Rightarrow>
                    (let prev_inserted_total = inserted_total h;
                         h1 = h\<lparr>collected := collected h + int (length (it # its)),
                                inserted_total := inserted_total h + inserted,
                                collected_urls := seen,
                                hconn := c,
                                log_lines := log_lines h @
                                  [Progress (collected h + int (length (it # its))) inserted
                                     (inserted_total h + inserted)]\<rparr>
                     in if inserted_total h1 = prev_inserted_total
                        then Break (h1\<lparr>log_lines := log_lines h1 @ [SameTotal]\<rparr>)
                        else (let h2 = h1\<lparr>start := start h1 + display\<rparr>
                              in if start h2 > 1000
                                 then Break (h2\<lparr>log_lines := log_lines h2 @ [ApiLimit]\<rparr>)
                                 else Next h2)))))"

function collect_loop :: "world \<Rightarrow> string \<Rightarrow> int \<Rightarrow> string set \<Rightarrow> harvest \<Rightarrow> exn option \<times> harvest" where
  "collect_loop w query total_count existing h =
     (if collected h < total_count
      then (case collect_iter w query total_count existing h of
              Break h1 \<Rightarrow> (None, h1)
            | Raise e h1 \<Rightarrow> (Some e, h1)
            | Next h1 \<Rightarrow> collect_loop w query total_count existing h1)
      else (None, h))"
  by pat_completeness auto
termination
proof (relation "measure (\<lambda>(w, query, total_count, existing, h). nat (total_count - collected h))")
  fix w :: world and query :: string and total_count :: int and existing :: "string set"
    and h h1 :: harvest
  assume "collected h < total_count" and "collect_iter w query total_count existing h = Next h1"
  then have "collected h < collected h1"
    by (auto simp: collect_iter_def Let_def
          split: option.splits list.splits sum.splits prod.splits if_splits)
  with \<open>collected h < total_count\<close>
  show "((w, query, total_count, existing, h1), (w, query, total_count, existing, h))
        \<in> measure (\<lambda>(w, query, total_count, existing, h). nat (total_count - collected h))"
    by simp
qed simp

definition collect_state :: "world \<Rightarrow> string \<Rightarrow> int \<Rightarrow> db \<Rightarrow> exn option \<times> harvest" where
  "collect_state w query total_count store =
     (let h0 = \<lparr>collected = 0, inserted_total = 0, start = 1, collected_urls = {},
                hconn = connect store, log_lines = []\<rparr>
      in case get_existing_urls w (hconn h0) of
           Inl e \<Rightarrow> (Some e, h0)
         | Inr existing_urls \<Rightarrow> collect_loop w query total_count existing_urls h0)"

definition collect :: "world \<Rightarrow> string \<Rightarrow> int \<Rightarrow> db \<Rightarrow> (exn + nat) \<times> db" where
  "collect w query total_count store =
     (case collect_state w query total_count store of
        (Some e, h) \<Rightarrow> (Inl e, close (hconn h))
      | (None, h) \<Rightarrow> (Inr (inserted_total h), close (hconn h)))"

section \<open>Reference definitions and example inputs\<close>

text \<open>
  The normalization as the specification words it: a leading \<open>www.\<close> is stripped and
  nothing else is touched. It is compared with what the source computes.
\<close>

definition strip_leading_www :: "string \<Rightarrow> string" where
  "strip_leading_www s = (if prefix ''www.'' s then drop 4 s else s)"

text \<open>A world in which every collaborator fails and the store raises no error of its own.\<close>

definition quiet_world :: world where
  "quiet_world =
     \<lparr>read_lines = (\<lambda>p. Inl IOError),
      netloc = (\<lambda>u. Inl ValueError),
      article_text = (\<lambda>u. Inl IOError),
      elapsed_ms = (\<lambda>u. 0),
      now = 0,
      api_get = (\<lambda>q d s. Inl IOError),
      parsedate = (\<lambda>s. Inl ValueError),
      store_error = (\<lambda>s. None)\<rparr>"

definition article :: "nat \<Rightarrow> string \<Rightarrow> crawl_status \<Rightarrow> news_row" where
  "article i u st =
     \<lparr>news_id = i, title = ''t'', pub_date = 0, url = u, search_keyword = ''k'',
      api_request_date = 0, crawl_status = st, url_filter_version = None,
      crawl_attempt_count = 0\<rparr>"

text \<open>The crawler of \<open>__main__\<close>, built over a blocklist file with the given lines.\<close>

definition crawler_with :: "string list \<Rightarrow> crawler" where
  "crawler_with lines =
     init (quiet_world\<lparr>read_lines := \<lambda>p. Inr lines\<rparr>) ''filter_domain_list_v1.00.txt''
       ''1.0.0'' 6"

definition store_of :: "news_row list \<Rightarrow> db" where
  "store_of rows = \<lparr>naver_news = rows, crawled_news = []\<rparr>"

definition example_netloc :: "string \<Rightarrow> exn + string" where
  "example_netloc u =
     (if u = ''https://news.naver.com/a'' then Inr ''news.naver.com''
      else if u = ''https://example.org/b'' then Inr ''example.org''
      else Inl ValueError)"

definition two_articles :: db where
  "two_articles =
     store_of [article 1 ''https://news.naver.com/a'' pending,
               article 2 ''https://example.org/b'' pending]"

text \<open>A store that raises on the second batched update of the classification pass.\<close>

definition stamp_fails :: "stmt \<Rightarrow> exn option" where
  "stamp_fails s = (case s of UpdateStamped ids \<Rightarrow> Some DatabaseError | _ \<Rightarrow> None)"

text \<open>A store that rejects every content row with an error that is not a key conflict.\<close>

definition content_insert_fails :: "stmt \<Rightarrow> exn option" where
  "content_insert_fails s = (case s of InsertCrawled nid \<Rightarrow> Some DatabaseError | _ \<Rightarrow> None)"

definition hello_world :: world where
  "hello_world = quiet_world\<lparr>netloc := example_netloc, article_text := \<lambda>u. Inr ''hello''\<rparr>"

definition one_article :: db where
  "one_article = store_of [article 1 ''https://example.org/b'' pending]"

definition parsed :: "string \<Rightarrow> parsed_item" where
  "parsed u =
     \<lparr>p_title = ''t'', p_pub_date = 0, p_url = u, p_search_keyword = ''k'',
      p_api_request_date = 0\<rparr>"

text \<open>A store that rejects the article of one URL and accepts every other.\<close>

definition rejects_b :: "stmt \<Rightarrow> exn option" where
  "rejects_b s = (if s = InsertNews ''https://example.org/b'' then Some DatabaseError else None)"

text \<open>A provider that answers every request with the same single item.\<close>

definition the_item :: item where
  "the_item = [''title'' \<mapsto> ''<b>a</b>'', ''link'' \<mapsto> ''https://example.org/a'',
               ''pubDate'' \<mapsto> ''Mon, 01 Jan 2024 00:00:00 +0900'']"

definition repeating_provider :: world where
  "repeating_provider =
     quiet_world\<lparr>api_get := \<lambda>q d s. Inr (Some [the_item]), parsedate := \<lambda>s. Inr 0\<rparr>"

section \<open>Facts about the string operations\<close>

lemmas strip_eval = py_strip_def is_space_def is_continuation_def space_codes_def

lemma py_in_sublist: "py_in a b = sublist a b"
  by (induction b) (auto simp: sublist_Cons_right)

lemma prefix_over_gap:
  assumes "old \<noteq> []" "x \<noteq> []" "prefix old (x @ old @ b)"
  shows "prefix old (x @ butlast old)"
proof -
  have len: "length old \<le> length (x @ butlast old)" using assms(1,2)
    by (cases x) auto
  have "old = take (length old) (x @ old @ b)" using assms(3)
    by (metis append_eq_conv_conj prefix_def)
  also have "x @ old @ b = (x @ butlast old) @ (last old # b)" using assms(1) by simp
  also have "take (length old) ((x @ butlast old) @ (last old # b)) = take (length old) (x @ butlast old)"
    using len by simp
  finally show ?thesis by (metis take_is_prefix)
qed

lemma py_replace_first:
  assumes "old \<noteq> []" "\<not> py_in old (a @ butlast old)"
  shows "py_replace old new (a @ old @ b) = a @ new @ py_replace old new b"
  using assms(2)
proof (induction a)
  case Nil
  show ?case using assms(1) by (cases old) auto
next
  case (Cons c a)
  have np: "\<not> prefix old (c # a @ butlast old)" and ni: "\<not> py_in old (a @ butlast old)"
    using Cons.prems by auto
  have "\<not> prefix old ((c # a) @ old @ b)"
    using prefix_over_gap[OF assms(1), of "c # a" b] np by auto
  then show ?case using assms(1) Cons.IH[OF ni] by simp
qed

lemma py_replace_absent:
  "old \<noteq> [] \<Longrightarrow> \<not> py_in old s \<Longrightarrow> py_replace old new s = s"
  by (induction s) auto

section \<open>Domain normalization\<close>

text \<open>
  Claim C8, as the specification states it: normalization removes only a leading \<open>www.\<close>
  and leaves every other occurrence in place. The source calls \<open>replace('www.', '')\<close>,
  which deletes the occurrence inside the blocklist line \<open>m.www.naver.com\<close> as well.
\<close>

theorem normalization_counterexample:
  "load_filter_domains (quiet_world\<lparr>read_lines := \<lambda>p. Inr [''m.www.naver.com'']\<rparr>)
      ''filter_domain_list_v1.00.txt''
   \<noteq> {strip_leading_www (py_strip ''m.www.naver.com'')}"
  by (simp add: load_filter_domains_def quiet_world_def strip_eval
        strip_leading_www_def)

text \<open>
  Claim C8, amended: normalization deletes every occurrence of \<open>www.\<close>, scanning from the
  left, at the start of the string or inside it. A string without \<open>www.\<close> is unchanged;
  where the first occurrence follows a prefix \<open>a\<close>, that occurrence is deleted and the
  rest is normalized in the same way. Both the blocklist lines (after \<open>strip\<close>) and the
  \<open>netloc\<close> of a record's URL are normalized so.
\<close>

theorem normalization_removes_every_www:
  "(\<not> py_in ''www.'' s \<longrightarrow> py_replace ''www.'' '''' s = s) \<and>
   (\<not> py_in ''www.'' (a @ ''www'') \<longrightarrow>
      py_replace ''www.'' '''' (a @ ''www.'' @ b) = a @ py_replace ''www.'' '''' b) \<and>
   (read_lines w path = Inr lines \<longrightarrow>
      load_filter_domains w path =
        (\<lambda>line. py_replace ''www.'' '''' (py_strip line)) `
          set (filter (\<lambda>line. py_strip line \<noteq> []) lines)) \<and>
   (netloc w u = Inr h \<longrightarrow>
      is_url_filtered self w u =
        (\<exists>fd \<in> filtered_domains self.
           py_in fd (py_replace ''www.'' '''' h) \<or> py_in (py_replace ''www.'' '''' h) fd))"
proof (intro conjI impI)
  assume "\<not> py_in ''www.'' s"
  then show "py_replace ''www.'' '''' s = s"
    by (intro py_replace_absent) simp_all
next
  assume "\<not> py_in ''www.'' (a @ ''www'')"
  then show "py_replace ''www.'' '''' (a @ ''www.'' @ b) = a @ py_replace ''www.'' '''' b"
    using py_replace_first[of "''www.''" a "''''" b] by simp
next
  assume "read_lines w path = Inr lines"
  then show "load_filter_domains w path =
        (\<lambda>line. py_replace ''www.'' '''' (py_strip line)) `
          set (filter (\<lambda>line. py_strip line \<noteq> []) lines)"
    by (simp add: load_filter_domains_def)
next
  assume "netloc w u = Inr h"
  then show "is_url_filtered self w u =
        (\<exists>fd \<in> filtered_domains self.
           py_in fd (py_replace ''www.'' '''' h) \<or> py_in (py_replace ''www.'' '''' h) fd)"
    by (simp add: is_url_filtered_def Let_def)
qed

theorem normalization_removes_every_www_witness:
  "\<not> py_in ''www.'' ''naver.com'' \<and> py_replace ''www.'' '''' ''naver.com'' = ''naver.com'' \<and>
   \<not> py_in ''www.'' (''m.'' @ ''www'') \<and>
   py_replace ''www.'' '''' (''m.'' @ ''www.'' @ ''naver.com'') = ''m.'' @ py_replace ''www.'' '''' ''naver.com'' \<and>
   read_lines (quiet_world\<lparr>read_lines := \<lambda>p. Inr [''m.www.naver.com'']\<rparr>) ''f_v1.txt''
     = Inr [''m.www.naver.com''] \<and>
   load_filter_domains (quiet_world\<lparr>read_lines := \<lambda>p. Inr [''m.www.naver.com'']\<rparr>) ''f_v1.txt''
     = {''m.naver.com''}"
  using normalization_removes_every_www
      [of "''naver.com''" "''m.''" "''naver.com''"
          "quiet_world\<lparr>read_lines := \<lambda>p. Inr [''m.www.naver.com'']\<rparr>" "''f_v1.txt''"
          "[''m.www.naver.com'']"]
  by (simp add: quiet_world_def strip_eval)

section \<open>The classification pass\<close>

lemma select_pending_set:
  "set (select_pending d) = (\<lambda>r. (news_id r, url r)) ` {r \<in> set (naver_news d). crawl_status r = pending}"
  by (auto simp: select_pending_def)

lemma select_pending_Nil:
  "select_pending d = [] \<longleftrightarrow> (\<forall>r \<in> set (naver_news d). crawl_status r \<noteq> pending)"
proof -
  have "select_pending d = [] \<longleftrightarrow> set (select_pending d) = {}" by simp
  also have "\<dots> \<longleftrightarrow> (\<forall>r \<in> set (naver_news d). crawl_status r \<noteq> pending)"
    unfolding select_pending_set by auto
  finally show ?thesis .
qed

lemma length_filter_select_pending:
  "length (filter (\<lambda>(i, u). P u) (select_pending d)) =
   length (filter (\<lambda>r. crawl_status r = pending \<and> P (url r)) (naver_news d))"
proof -
  have "filter (\<lambda>(i, u). P u) (select_pending d) =
        map (\<lambda>r. (news_id r, url r))
          (rev (sort_key news_id (filter (\<lambda>r. crawl_status r = pending \<and> P (url r)) (naver_news d))))"
    unfolding select_pending_def
    by (simp add: filter_map comp_def rev_filter[symmetric] filter_sort conj_commute)
  then show ?thesis by simp
qed

lemma ids_of_select_pending:
  assumes "distinct (map news_id (naver_news d))" "r \<in> set (naver_news d)"
  shows "news_id r \<in> set (map fst (filter (\<lambda>(i, u). P u) (select_pending d)))
         \<longleftrightarrow> crawl_status r = pending \<and> P (url r)"
proof
  assume "news_id r \<in> set (map fst (filter (\<lambda>(i, u). P u) (select_pending d)))"
  then obtain u where "(news_id r, u) \<in> set (select_pending d)" "P u"
    by auto
  then obtain r' where r': "r' \<in> set (naver_news d)" "crawl_status r' = pending"
      "news_id r' = news_id r" "url r' = u"
    unfolding select_pending_set by auto
  have "r' = r"
    using assms r'(1,3) by (meson distinct_map inj_onD)
  with r' \<open>P u\<close> show "crawl_status r = pending \<and> P (url r)" by simp
next
  assume a: "crawl_status r = pending \<and> P (url r)"
  then have "(news_id r, url r) \<in> set (select_pending d)"
    unfolding select_pending_set using assms(2) by blast
  then have "(news_id r, url r) \<in> set (filter (\<lambda>(i, u). P u) (select_pending d))"
    using a by simp
  then show "news_id r \<in> set (map fst (filter (\<lambda>(i, u). P u) (select_pending d)))"
    by (metis fst_conv image_eqI set_map)
qed

lemma update_filtered_Nil: "update_filtered v [] d = d"
  by (simp add: update_filtered_def)

lemma update_stamped_Nil: "update_stamped v [] d = d"
  by (simp add: update_stamped_def)

lemma filter_urls_unfold:
  "filter_urls self w store =
     (let news_list = select_pending store;
          fids = map fst (filter (\<lambda>(i, u). is_url_filtered self w u) news_list);
          pids = map fst (filter (\<lambda>(i, u). \<not> is_url_filtered self w u) news_list)
      in case store_error w SelectPending of
           Some e \<Rightarrow> (Inl e, store)
         | None \<Rightarrow>
             if news_list = [] then (Inr 0, store)
             else (case (if fids \<noteq> [] then store_error w (UpdateFiltered fids) else None) of
                     Some e \<Rightarrow> (Inl e, store)
                   | None \<Rightarrow>
                       (case (if pids \<noteq> [] then store_error w (UpdateStamped pids) else None) of
                          Some e \<Rightarrow> (Inl e, store)
                        | None \<Rightarrow>
                            (Inr (length fids),
                             update_stamped (filter_version self) pids
                               (update_filtered (filter_version self) fids store)))))"
  by (simp add: filter_urls_def filter_urls_try_def execute_def connect_def commit_def
        rollback_def close_def Let_def update_filtered_Nil update_stamped_Nil
      split: option.splits)

lemma filter_urls_ok:
  assumes dist: "distinct (map news_id (naver_news store))"
    and e1: "store_error w SelectPending = None"
    and e2: "\<And>ids. store_error w (UpdateFiltered ids) = None"
    and e3: "\<And>ids. store_error w (UpdateStamped ids) = None"
  shows "filter_urls self w store =
    (Inr (length (filter (\<lambda>r. crawl_status r = pending \<and> is_url_filtered self w (url r))
                    (naver_news store))),
     store\<lparr>naver_news :=
       map (\<lambda>r. if crawl_status r = pending
                then (if is_url_filtered self w (url r)
                      then r\<lparr>crawl_status := url_filtered,
                             url_filter_version := Some (filter_version self)\<rparr>
                      else r\<lparr>url_filter_version := Some (filter_version self)\<rparr>)
                else r)
           (naver_news store)\<rparr>)"
proof -
  let ?P = "is_url_filtered self w"
  let ?fids = "map fst (filter (\<lambda>(i, u). ?P u) (select_pending store))"
  let ?pids = "map fst (filter (\<lambda>(i, u). \<not> ?P u) (select_pending store))"
  let ?v = "filter_version self"
  let ?cl = "\<lambda>r. if crawl_status r = pending
                then (if ?P (url r)
                      then r\<lparr>crawl_status := url_filtered, url_filter_version := Some ?v\<rparr>
                      else r\<lparr>url_filter_version := Some ?v\<rparr>)
                else r"
  have len: "length ?fids = length (filter (\<lambda>r. crawl_status r = pending \<and> ?P (url r)) (naver_news store))"
    using length_filter_select_pending[of ?P store] by simp
  have upd: "update_stamped ?v ?pids (update_filtered ?v ?fids store)
             = store\<lparr>naver_news := map ?cl (naver_news store)\<rparr>"
  proof -
    have "map (\<lambda>r. if news_id r \<in> set ?pids then r\<lparr>url_filter_version := Some ?v\<rparr> else r)
            (map (\<lambda>r. if news_id r \<in> set ?fids
                      then r\<lparr>crawl_status := url_filtered, url_filter_version := Some ?v\<rparr>
                      else r) (naver_news store))
          = map ?cl (naver_news store)"
    proof (unfold map_map, rule map_cong[OF refl])
      fix r assume r: "r \<in> set (naver_news store)"
      have f: "news_id r \<in> set ?fids \<longleftrightarrow> crawl_status r = pending \<and> ?P (url r)"
        using ids_of_select_pending[OF dist r, of ?P] .
      have p: "news_id r \<in> set ?pids \<longleftrightarrow> crawl_status r = pending \<and> \<not> ?P (url r)"
        using ids_of_select_pending[OF dist r, of "\<lambda>u. \<not> ?P u"] .
      show "((\<lambda>r. if news_id r \<in> set ?pids then r\<lparr>url_filter_version := Some ?v\<rparr> else r) \<circ>
             (\<lambda>r. if news_id r \<in> set ?fids
                      then r\<lparr>crawl_status := url_filtered, url_filter_version := Some ?v\<rparr>
                      else r)) r = ?cl r"
        unfolding comp_def using f p by (cases "news_id r \<in> set ?fids") auto
    qed
    then show ?thesis
      by (simp add: update_stamped_def update_filtered_def)
  qed
  show ?thesis
  proof (cases "select_pending store = []")
    case True
    then have np: "\<forall>r \<in> set (naver_news store). crawl_status r \<noteq> pending"
      by (simp add: select_pending_Nil)
    then have "map ?cl (naver_news store) = naver_news store"
      by (intro map_idI) auto
    moreover have "filter (\<lambda>r. crawl_status r = pending \<and> ?P (url r)) (naver_news store) = []"
      using np by (auto simp: filter_empty_conv)
    ultimately show ?thesis
      using True e1 by (simp add: filter_urls_unfold)
  next
    case False
    then have "filter_urls self w store =
        (Inr (length ?fids), update_stamped ?v ?pids (update_filtered ?v ?fids store))"
      using e1 e2 e3 by (simp add: filter_urls_unfold Let_def)
    then show ?thesis
      by (simp only: len upd)
  qed
qed

lemma crawler_with_simps:
  "filtered_domains (crawler_with lines) =
     set (map (\<lambda>line. py_replace ''www.'' '''' (py_strip line))
              (filter (\<lambda>line. py_strip line \<noteq> []) lines))"
  "filter_version (crawler_with lines) = ''v1.00''"
  "crawler_version (crawler_with lines) = ''1.0.0''"
  by (simp_all add: crawler_with_def init_def load_filter_domains_def quiet_world_def
        extract_filter_version_def py_split_def)

text \<open>
  Claim C4: a pending record is classified as filtered exactly when its normalized host
  matches the blocklist in either direction: the host contains a blocklist entry, or a
  blocklist entry contains the host. The host is the \<open>netloc\<close> of the record's URL; a URL
  that \<open>urlparse\<close> rejects has no host and is not filtered. The witness holds the two
  examples of the specification.
\<close>

theorem filtered_iff_bidirectional_match:
  assumes "distinct (map news_id (naver_news store))"
    and "store_error w SelectPending = None"
    and "\<forall>ids. store_error w (UpdateFiltered ids) = None"
    and "\<forall>ids. store_error w (UpdateStamped ids) = None"
    and "i < length (naver_news store)"
    and "crawl_status (naver_news store ! i) = pending"
  shows "crawl_status (naver_news (snd (filter_urls self w store)) ! i) = url_filtered \<longleftrightarrow>
         (\<exists>host. netloc w (url (naver_news store ! i)) = Inr host \<and>
            (\<exists>fd \<in> filtered_domains self.
               sublist fd (py_replace ''www.'' '''' host) \<or>
               sublist (py_replace ''www.'' '''' host) fd))"
proof -
  have "crawl_status (naver_news (snd (filter_urls self w store)) ! i) = url_filtered
        \<longleftrightarrow> is_url_filtered self w (url (naver_news store ! i))"
    using assms by (simp add: filter_urls_ok)
  also have "\<dots> \<longleftrightarrow> (\<exists>host. netloc w (url (naver_news store ! i)) = Inr host \<and>
            (\<exists>fd \<in> filtered_domains self.
               sublist fd (py_replace ''www.'' '''' host) \<or>
               sublist (py_replace ''www.'' '''' host) fd))"
    by (cases "netloc w (url (naver_news store ! i))")
       (simp_all add: is_url_filtered_def Let_def py_in_sublist)
  finally show ?thesis .
qed

theorem filtered_iff_bidirectional_match_witness:
  "crawl_status (naver_news (snd (filter_urls (crawler_with [''naver.com''])
       (quiet_world\<lparr>netloc := \<lambda>u. Inr ''news.naver.com''\<rparr>)
       (store_of [article 1 ''https://news.naver.com/a'' pending]))) ! 0) = url_filtered \<and>
   crawl_status (naver_news (snd (filter_urls (crawler_with [''m.naver.com''])
       (quiet_world\<lparr>netloc := \<lambda>u. Inr ''naver.com''\<rparr>)
       (store_of [article 1 ''https://naver.com/a'' pending]))) ! 0) = url_filtered \<and>
   crawl_status (naver_news (snd (filter_urls (crawler_with [''daum.net''])
       (quiet_world\<lparr>netloc := \<lambda>u. Inr ''naver.com''\<rparr>)
       (store_of [article 1 ''https://naver.com/a'' pending]))) ! 0) \<noteq> url_filtered"
proof -
  have a: "sublist ''naver.com'' ''news.naver.com''"
    and b: "sublist ''naver.com'' ''m.naver.com''"
    and c: "\<not> sublist ''daum.net'' ''naver.com''" "\<not> sublist ''naver.com'' ''daum.net''"
    by (simp_all add: py_in_sublist[symmetric])
  show ?thesis
    using filtered_iff_bidirectional_match
        [of "store_of [article 1 ''https://news.naver.com/a'' pending]"
            "quiet_world\<lparr>netloc := \<lambda>u. Inr ''news.naver.com''\<rparr>" 0 "crawler_with [''naver.com'']"]
      filtered_iff_bidirectional_match
        [of "store_of [article 1 ''https://naver.com/a'' pending]"
            "quiet_world\<lparr>netloc := \<lambda>u. Inr ''naver.com''\<rparr>" 0 "crawler_with [''m.naver.com'']"]
      filtered_iff_bidirectional_match
        [of "store_of [article 1 ''https://naver.com/a'' pending]"
            "quiet_world\<lparr>netloc := \<lambda>u. Inr ''naver.com''\<rparr>" 0 "crawler_with [''daum.net'']"]
      a b c
    by (simp add: store_of_def article_def quiet_world_def crawler_with_simps
          strip_eval)
qed

text \<open>
  Claim C6: the classification pass is atomic. When \<open>filter_urls\<close> raises, the store is
  what it was before the call; when it returns, the store holds both batched updates. An
  error of the store at any statement the pass executes (the select, the update of the
  filtered ids when there are any, the update of the passed ids when there are any,
  whether or not the other update has run) is re-raised to the caller with nothing
  changed, and with no such error the pass returns and commits both updates.
\<close>

theorem filter_urls_atomic:
  "(filter_urls self w store = (Inl e, store1) \<longrightarrow> store1 = store) \<and>
   (filter_urls self w store = (Inr n, store1) \<longrightarrow>
      n = length (filter (\<lambda>(i, u). is_url_filtered self w u) (select_pending store)) \<and>
      store1 =
        update_stamped (filter_version self)
          (map fst (filter (\<lambda>(i, u). \<not> is_url_filtered self w u) (select_pending store)))
          (update_filtered (filter_version self)
            (map fst (filter (\<lambda>(i, u). is_url_filtered self w u) (select_pending store)))
            store)) \<and>
   (store_error w SelectPending = Some e \<longrightarrow> filter_urls self w store = (Inl e, store)) \<and>
   (store_error w SelectPending = None \<and>
    map fst (filter (\<lambda>(i, u). is_url_filtered self w u) (select_pending store)) = fids \<and>
    fids \<noteq> [] \<and> store_error w (UpdateFiltered fids) = Some e \<longrightarrow>
      filter_urls self w store = (Inl e, store)) \<and>
   (store_error w SelectPending = None \<and>
    map fst (filter (\<lambda>(i, u). is_url_filtered self w u) (select_pending store)) = fids \<and>
    map fst (filter (\<lambda>(i, u). \<not> is_url_filtered self w u) (select_pending store)) = pids \<and>
    (fids = [] \<or> store_error w (UpdateFiltered fids) = None) \<and>
    pids \<noteq> [] \<and> store_error w (UpdateStamped pids) = Some e \<longrightarrow>
      filter_urls self w store = (Inl e, store)) \<and>
   (store_error w SelectPending = None \<and>
    map fst (filter (\<lambda>(i, u). is_url_filtered self w u) (select_pending store)) = fids \<and>
    map fst (filter (\<lambda>(i, u). \<not> is_url_filtered self w u) (select_pending store)) = pids \<and>
    (fids = [] \<or> store_error w (UpdateFiltered fids) = None) \<and>
    (pids = [] \<or> store_error w (UpdateStamped pids) = None) \<longrightarrow>
      filter_urls self w store =
        (Inr (length fids),
         update_stamped (filter_version self) pids
           (update_filtered (filter_version self) fids store)))"
proof (intro conjI impI)
  assume "filter_urls self w store = (Inl e, store1)"
  then show "store1 = store"
    by (simp add: filter_urls_unfold Let_def split: option.splits if_splits)
next
  assume "filter_urls self w store = (Inr n, store1)"
  then show "n = length (filter (\<lambda>(i, u). is_url_filtered self w u) (select_pending store))"
    by (auto simp: filter_urls_unfold Let_def split: option.splits if_splits)
next
  assume "filter_urls self w store = (Inr n, store1)"
  then show "store1 =
        update_stamped (filter_version self)
          (map fst (filter (\<lambda>(i, u). \<not> is_url_filtered self w u) (select_pending store)))
          (update_filtered (filter_version self)
            (map fst (filter (\<lambda>(i, u). is_url_filtered self w u) (select_pending store)))
            store)"
    by (auto simp: filter_urls_unfold Let_def update_filtered_Nil update_stamped_Nil
          split: option.splits if_splits)
next
  assume "store_error w SelectPending = Some e"
  then show "filter_urls self w store = (Inl e, store)"
    by (simp add: filter_urls_unfold Let_def)
next
  assume a: "store_error w SelectPending = None \<and>
    map fst (filter (\<lambda>(i, u). is_url_filtered self w u) (select_pending store)) = fids \<and>
    fids \<noteq> [] \<and> store_error w (UpdateFiltered fids) = Some e"
  then have "select_pending store \<noteq> []" by auto
  with a show "filter_urls self w store = (Inl e, store)"
    by (simp add: filter_urls_unfold Let_def)
next
  assume a: "store_error w SelectPending = None \<and>
    map fst (filter (\<lambda>(i, u). is_url_filtered self w u) (select_pending store)) = fids \<and>
    map fst (filter (\<lambda>(i, u). \<not> is_url_filtered self w u) (select_pending store)) = pids \<and>
    (fids = [] \<or> store_error w (UpdateFiltered fids) = None) \<and>
    pids \<noteq> [] \<and> store_error w (UpdateStamped pids) = Some e"
  then have ne: "select_pending store \<noteq> []" by auto
  from a have f: "(if fids \<noteq> [] then store_error w (UpdateFiltered fids) else None) = None"
    by auto
  from a have p: "(if pids \<noteq> [] then store_error w (UpdateStamped pids) else None) = Some e"
    by auto
  have fd: "map fst (filter (\<lambda>(i, u). is_url_filtered self w u) (select_pending store)) = fids"
    and pd: "map fst (filter (\<lambda>(i, u). \<not> is_url_filtered self w u) (select_pending store)) = pids"
    and sel: "store_error w SelectPending = None"
    using a by auto
  show "filter_urls self w store = (Inl e, store)"
    unfolding filter_urls_unfold Let_def fd pd sel using ne f p by simp
next
  assume a: "store_error w SelectPending = None \<and>
    map fst (filter (\<lambda>(i, u). is_url_filtered self w u) (select_pending store)) = fids \<and>
    map fst (filter (\<lambda>(i, u). \<not> is_url_filtered self w u) (select_pending store)) = pids \<and>
    (fids = [] \<or> store_error w (UpdateFiltered fids) = None) \<and>
    (pids = [] \<or> store_error w (UpdateStamped pids) = None)"
  from a have f: "(if fids \<noteq> [] then store_error w (UpdateFiltered fids) else None) = None"
    by auto
  from a have p: "(if pids \<noteq> [] then store_error w (UpdateStamped pids) else None) = None"
    by auto
  have fd: "map fst (filter (\<lambda>(i, u). is_url_filtered self w u) (select_pending store)) = fids"
    and pd: "map fst (filter (\<lambda>(i, u). \<not> is_url_filtered self w u) (select_pending store)) = pids"
    and sel: "store_error w SelectPending = None"
    using a by auto
  have empty: "select_pending store = [] \<Longrightarrow> fids = [] \<and> pids = []"
    using fd pd by auto
  show "filter_urls self w store =
        (Inr (length fids),
         update_stamped (filter_version self) pids
           (update_filtered (filter_version self) fids store))"
    unfolding filter_urls_unfold Let_def fd pd sel using f p empty
    by (auto simp: update_filtered_Nil update_stamped_Nil)
qed

lemma two_articles_pending:
  "select_pending two_articles =
     [(2, ''https://example.org/b''), (1, ''https://news.naver.com/a'')]"
  by (simp add: two_articles_def store_of_def article_def select_pending_def)

lemma example_filtered:
  "is_url_filtered (crawler_with [''naver.com'']) (quiet_world\<lparr>netloc := example_netloc, store_error := err\<rparr>)
     ''https://news.naver.com/a''"
  "\<not> is_url_filtered (crawler_with [''naver.com'']) (quiet_world\<lparr>netloc := example_netloc, store_error := err\<rparr>)
     ''https://example.org/b''"
  by (simp_all add: is_url_filtered_def crawler_with_simps quiet_world_def example_netloc_def
        strip_eval)

lemma nothing_filtered:
  "\<not> is_url_filtered (crawler_with []) w u"
  by (simp add: is_url_filtered_def crawler_with_simps Let_def split: sum.splits)

theorem filter_urls_atomic_witness:
  "store_error (quiet_world\<lparr>netloc := example_netloc, store_error := stamp_fails\<rparr>) SelectPending = None \<and>
   store_error (quiet_world\<lparr>netloc := example_netloc, store_error := stamp_fails\<rparr>) (UpdateFiltered [1]) = None \<and>
   store_error (quiet_world\<lparr>netloc := example_netloc, store_error := stamp_fails\<rparr>) (UpdateStamped [2])
     = Some DatabaseError \<and>
   filter_urls (crawler_with [''naver.com''])
     (quiet_world\<lparr>netloc := example_netloc, store_error := stamp_fails\<rparr>) two_articles
     = (Inl DatabaseError, two_articles) \<and>
   store_error (quiet_world\<lparr>netloc := example_netloc, store_error := stamp_fails\<rparr>) (UpdateStamped [2, 1])
     = Some DatabaseError \<and>
   filter_urls (crawler_with [])
     (quiet_world\<lparr>netloc := example_netloc, store_error := stamp_fails\<rparr>) two_articles
     = (Inl DatabaseError, two_articles) \<and>
   filter_urls (crawler_with [''naver.com''])
     (quiet_world\<lparr>netloc := example_netloc, store_error := \<lambda>s. None\<rparr>) two_articles
     = (Inr 1, update_stamped ''v1.00'' [2] (update_filtered ''v1.00'' [1] two_articles))"
proof -
  let ?w = "quiet_world\<lparr>netloc := example_netloc, store_error := stamp_fails\<rparr>"
  let ?q = "quiet_world\<lparr>netloc := example_netloc, store_error := \<lambda>s. None\<rparr>"
  note second_update_fails =
    filter_urls_atomic
      [where self = "crawler_with [''naver.com'']" and w = ?w
         and store = two_articles and e = DatabaseError and fids = "[1]" and pids = "[2]",
       THEN conjunct2, THEN conjunct2, THEN conjunct2, THEN conjunct2, THEN conjunct1]
  have mixed: "filter_urls (crawler_with [''naver.com'']) ?w two_articles
      = (Inl DatabaseError, two_articles)"
    by (rule mp[OF second_update_fails])
       (simp add: two_articles_pending example_filtered stamp_fails_def)
  note only_update_fails =
    filter_urls_atomic
      [where self = "crawler_with []" and w = ?w
         and store = two_articles and e = DatabaseError and fids = "[]" and pids = "[2, 1]",
       THEN conjunct2, THEN conjunct2, THEN conjunct2, THEN conjunct2, THEN conjunct1]
  have unfiltered: "filter_urls (crawler_with []) ?w two_articles
      = (Inl DatabaseError, two_articles)"
    by (rule mp[OF only_update_fails])
       (simp add: two_articles_pending nothing_filtered stamp_fails_def)
  note no_failure =
    filter_urls_atomic
      [where self = "crawler_with [''naver.com'']" and w = ?q
         and store = two_articles and fids = "[1]" and pids = "[2]",
       THEN conjunct2, THEN conjunct2, THEN conjunct2, THEN conjunct2, THEN conjunct2]
  have "filter_urls (crawler_with [''naver.com'']) ?q two_articles
      = (Inr (length [1::nat]),
         update_stamped (filter_version (crawler_with [''naver.com''])) [2]
           (update_filtered (filter_version (crawler_with [''naver.com''])) [1] two_articles))"
    by (rule mp[OF no_failure])
       (simp add: two_articles_pending example_filtered)
  then have healthy: "filter_urls (crawler_with [''naver.com'']) ?q two_articles
      = (Inr 1, update_stamped ''v1.00'' [2] (update_filtered ''v1.00'' [1] two_articles))"
    by (simp add: crawler_with_simps)
  have errs: "store_error ?w SelectPending = None" "store_error ?w (UpdateFiltered [1]) = None"
    "store_error ?w (UpdateStamped [2]) = Some DatabaseError"
    "store_error ?w (UpdateStamped [2, 1]) = Some DatabaseError"
    by (simp_all add: stamp_fails_def)
  show ?thesis
    using mixed unfiltered healthy errs by blast
qed

text \<open>
  Claim C9: the frame of the classification pass. A pending record that does not match
  the blocklist gets the current filter version in \<open>url_filter_version\<close> and nothing else:
  its status stays \<open>pending\<close>. A pending record that matches gets the version and the
  status \<open>url_filtered\<close>. No other record, no other field and no content row changes.
\<close>

theorem filter_urls_frame:
  assumes "distinct (map news_id (naver_news store))"
    and "store_error w SelectPending = None"
    and "\<forall>ids. store_error w (UpdateFiltered ids) = None"
    and "\<forall>ids. store_error w (UpdateStamped ids) = None"
  shows "snd (filter_urls self w store) =
     store\<lparr>naver_news :=
       map (\<lambda>r. if crawl_status r = pending
                then (if is_url_filtered self w (url r)
                      then r\<lparr>crawl_status := url_filtered,
                             url_filter_version := Some (filter_version self)\<rparr>
                      else r\<lparr>url_filter_version := Some (filter_version self)\<rparr>)
                else r)
           (naver_news store)\<rparr>"
  using assms by (simp add: filter_urls_ok)

theorem filter_urls_frame_witness:
  "snd (filter_urls (crawler_with [''naver.com''])
          (quiet_world\<lparr>netloc := example_netloc, store_error := \<lambda>s. None\<rparr>) two_articles) =
     store_of [(article 1 ''https://news.naver.com/a'' url_filtered)\<lparr>url_filter_version := Some ''v1.00''\<rparr>,
               (article 2 ''https://example.org/b'' pending)\<lparr>url_filter_version := Some ''v1.00''\<rparr>]"
proof -
  let ?w = "quiet_world\<lparr>netloc := example_netloc, store_error := \<lambda>s. None\<rparr>"
  have d: "distinct (map news_id (naver_news two_articles))"
    by (simp add: two_articles_def store_of_def article_def)
  have e: "store_error ?w SelectPending = None"
    "\<forall>ids. store_error ?w (UpdateFiltered ids) = None"
    "\<forall>ids. store_error ?w (UpdateStamped ids) = None"
    by simp_all
  show ?thesis
    unfolding filter_urls_frame[OF d e, of "crawler_with [''naver.com'']"]
    by (simp add: two_articles_def store_of_def article_def example_filtered crawler_with_simps)
qed

text \<open>
  Claim C10: when the blocklist file cannot be read at construction, the filter set is
  empty, \<open>_is_url_filtered\<close> is false for every URL, and a classification pass filters no
  record while it stamps every pending record with the filter version.
\<close>

theorem unreadable_blocklist_filters_nothing:
  "read_lines w0 path = Inl e \<longrightarrow>
     filtered_domains (init w0 path version workers) = {} \<and>
     \<not> is_url_filtered (init w0 path version workers) w u \<and>
     (distinct (map news_id (naver_news store)) \<and>
      store_error w SelectPending = None \<and>
      (\<forall>ids. store_error w (UpdateFiltered ids) = None) \<and>
      (\<forall>ids. store_error w (UpdateStamped ids) = None) \<longrightarrow>
        filter_urls (init w0 path version workers) w store =
          (Inr 0,
           store\<lparr>naver_news :=
             map (\<lambda>r. if crawl_status r = pending
                      then r\<lparr>url_filter_version :=
                               Some (filter_version (init w0 path version workers))\<rparr>
                      else r)
                 (naver_news store)\<rparr>))"
proof (intro impI conjI)
  assume unreadable: "read_lines w0 path = Inl e"
  then show empty: "filtered_domains (init w0 path version workers) = {}"
    by (simp add: init_def load_filter_domains_def)
  then show none: "\<not> is_url_filtered (init w0 path version workers) w u" for u
    by (simp add: is_url_filtered_def Let_def split: sum.splits)
  assume "distinct (map news_id (naver_news store)) \<and>
      store_error w SelectPending = None \<and>
      (\<forall>ids. store_error w (UpdateFiltered ids) = None) \<and>
      (\<forall>ids. store_error w (UpdateStamped ids) = None)"
  then show "filter_urls (init w0 path version workers) w store =
          (Inr 0,
           store\<lparr>naver_news :=
             map (\<lambda>r. if crawl_status r = pending
                      then r\<lparr>url_filter_version :=
                               Some (filter_version (init w0 path version workers))\<rparr>
                      else r)
                 (naver_news store)\<rparr>)"
    using none by (simp add: filter_urls_ok)
qed

theorem unreadable_blocklist_filters_nothing_witness:
  "read_lines quiet_world ''filter_domain_list_v1.00.txt'' = Inl IOError \<and>
   filtered_domains (init quiet_world ''filter_domain_list_v1.00.txt'' ''1.0.0'' 6) = {} \<and>
   \<not> is_url_filtered (init quiet_world ''filter_domain_list_v1.00.txt'' ''1.0.0'' 6)
       (quiet_world\<lparr>netloc := example_netloc\<rparr>) ''https://news.naver.com/a'' \<and>
   filter_urls (init quiet_world ''filter_domain_list_v1.00.txt'' ''1.0.0'' 6)
       (quiet_world\<lparr>netloc := example_netloc\<rparr>) two_articles =
     (Inr 0,
      store_of [(article 1 ''https://news.naver.com/a'' pending)\<lparr>url_filter_version := Some ''v1.00''\<rparr>,
                (article 2 ''https://example.org/b'' pending)\<lparr>url_filter_version := Some ''v1.00''\<rparr>])"
proof -
  have v: "filter_version (init quiet_world ''filter_domain_list_v1.00.txt'' ''1.0.0'' 6) = ''v1.00''"
    by (simp add: init_def extract_filter_version_def py_split_def)
  have q: "read_lines quiet_world ''filter_domain_list_v1.00.txt'' = Inl IOError"
    "store_error (quiet_world\<lparr>netloc := example_netloc\<rparr>) = (\<lambda>s. None)"
    by (simp_all add: quiet_world_def)
  have d: "distinct (map news_id (naver_news two_articles))"
    by (simp add: two_articles_def store_of_def article_def)
  have e: "store_error (quiet_world\<lparr>netloc := example_netloc\<rparr>) SelectPending = None"
    "\<forall>ids. store_error (quiet_world\<lparr>netloc := example_netloc\<rparr>) (UpdateFiltered ids) = None"
    "\<forall>ids. store_error (quiet_world\<lparr>netloc := example_netloc\<rparr>) (UpdateStamped ids) = None"
    by (simp_all add: q)
  have r: "filtered_domains (init quiet_world ''filter_domain_list_v1.00.txt'' ''1.0.0'' 6) = {} \<and>
     \<not> is_url_filtered (init quiet_world ''filter_domain_list_v1.00.txt'' ''1.0.0'' 6)
         (quiet_world\<lparr>netloc := example_netloc\<rparr>) ''https://news.naver.com/a'' \<and>
     filter_urls (init quiet_world ''filter_domain_list_v1.00.txt'' ''1.0.0'' 6)
         (quiet_world\<lparr>netloc := example_netloc\<rparr>) two_articles =
       (Inr 0,
        two_articles\<lparr>naver_news :=
          map (\<lambda>r. if crawl_status r = pending
                   then r\<lparr>url_filter_version := Some ''v1.00''\<rparr>
                   else r)
              (naver_news two_articles)\<rparr>)"
    using unreadable_blocklist_filters_nothing
        [of quiet_world "''filter_domain_list_v1.00.txt''" IOError "''1.0.0''" 6
            "quiet_world\<lparr>netloc := example_netloc\<rparr>" "''https://news.naver.com/a''" two_articles]
      q(1) d e
    unfolding v by blast
  show ?thesis
    using r q(1) by (simp add: two_articles_def store_of_def article_def)
qed

section \<open>One record through the crawler\<close>

text \<open>
  Claim C1 says that after one run every eligible record is \<open>crawl_success\<close> or
  \<open>crawl_failed\<close> and that an unexpected error moves the claimed record to
  \<open>crawl_failed\<close>. The outer handler of \<open>_process_single_news\<close> only rolls back and
  returns \<open>'failed'\<close>: the claim was committed before, so the record stays \<open>crawling\<close>.
  Here the store rejects the content row of the one eligible record with an error that is
  not a key conflict; the run counts one failure and leaves the record in \<open>crawling\<close>.
\<close>

theorem unexpected_error_leaves_crawling:
  "run (crawler_with []) (hello_world\<lparr>store_error := content_insert_fails\<rparr>) one_article =
     (Inr (0, 0, 1),
      store_of [(article 1 ''https://example.org/b'' crawling)
                  \<lparr>url_filter_version := Some ''v1.00'', crawl_attempt_count := 1\<rparr>])"
  by (simp add: run_def filter_urls_unfold crawl_news_def select_eligible_def select_pending_def
        process_single_news_def claim_def finalize_def store_content_def crawl_article_def
        execute_def connect_def commit_def rollback_def close_def
        update_claim_def update_status_def update_stamped_def update_filtered_def
        insert_crawled_def is_url_filtered_def crawler_with_simps
        hello_world_def quiet_world_def one_article_def store_of_def article_def
        content_insert_fails_def example_netloc_def strip_eval Let_def)

text \<open>
  The sibling path of the same function, for comparison: with no text fetched the record
  is set to \<open>crawl_failed\<close>, and with text and a healthy store to \<open>crawl_success\<close>.
\<close>

lemma empty_text_sets_crawl_failed:
  "run (crawler_with []) (hello_world\<lparr>article_text := \<lambda>u. Inr ''  ''\<rparr>) one_article =
     (Inr (0, 0, 1),
      store_of [(article 1 ''https://example.org/b'' crawl_failed)
                  \<lparr>url_filter_version := Some ''v1.00'', crawl_attempt_count := 1\<rparr>])"
  by (simp add: run_def filter_urls_unfold crawl_news_def select_eligible_def select_pending_def
        process_single_news_def claim_def finalize_def store_content_def crawl_article_def
        execute_def connect_def commit_def rollback_def close_def
        update_claim_def update_status_def update_stamped_def update_filtered_def
        insert_crawled_def is_url_filtered_def crawler_with_simps
        hello_world_def quiet_world_def one_article_def store_of_def article_def
        example_netloc_def strip_eval Let_def)

lemma end_to_end_scenario:
  "run (crawler_with []) hello_world one_article =
     (Inr (0, 1, 0),
      \<lparr>naver_news = [(article 1 ''https://example.org/b'' crawl_success)
                  \<lparr>url_filter_version := Some ''v1.00'', crawl_attempt_count := 1\<rparr>],
       crawled_news = [\<lparr>c_news_id = 1, content_text = ''hello'', c_crawler_version = ''1.0.0'',
                        response_time_ms = 0, crawled_at = 0\<rparr>]\<rparr>)"
  by (simp add: run_def filter_urls_unfold crawl_news_def select_eligible_def select_pending_def
        process_single_news_def claim_def finalize_def store_content_def crawl_article_def
        execute_def connect_def commit_def rollback_def close_def
        update_claim_def update_status_def update_stamped_def update_filtered_def
        insert_crawled_def is_url_filtered_def crawler_with_simps
        hello_world_def quiet_world_def one_article_def store_of_def article_def
        example_netloc_def strip_eval Let_def)

section \<open>Two workers racing on one article\<close>

lemma claim_ok:
  "store_error w (UpdateClaim nid) = None \<Longrightarrow>
   claim w (nid, u, t) store = Inr (update_claim nid store)"
  by (simp add: claim_def execute_def connect_def commit_def close_def)

lemma finalize_text_ok:
  assumes "crawl_article self w u = (Some text, ms)"
    and "store_error w (InsertCrawled nid) = None"
    and "store_error w (UpdateStatus nid crawl_success) = None"
  shows "finalize self w (nid, u, t) store =
     (success,
      update_status nid crawl_success
        (if nid \<in> set (map c_news_id (crawled_news store)) \<or>
            nid \<notin> set (map news_id (naver_news store))
         then store
         else store\<lparr>crawled_news := crawled_news store @
                [\<lparr>c_news_id = nid, content_text = text,
                  c_crawler_version = crawler_version self,
                  response_time_ms = ms, crawled_at = now w\<rparr>]\<rparr>))"
  using assms
  by (simp add: finalize_def store_content_def execute_def insert_crawled_def connect_def
        commit_def rollback_def close_def Let_def)

lemma update_claim_keeps:
  "crawled_news (update_claim nid d) = crawled_news d"
  "map news_id (naver_news (update_claim nid d)) = map news_id (naver_news d)"
proof -
  show "crawled_news (update_claim nid d) = crawled_news d"
    by (simp add: update_claim_def)
  have "news_id \<circ> (\<lambda>r. if news_id r = nid
            then r\<lparr>crawl_status := crawling, crawl_attempt_count := crawl_attempt_count r + 1\<rparr>
            else r) = news_id"
    by (rule ext) simp
  then show "map news_id (naver_news (update_claim nid d)) = map news_id (naver_news d)"
    by (simp add: update_claim_def)
qed

lemma update_status_keeps:
  "crawled_news (update_status nid st d) = crawled_news d"
  "map news_id (naver_news (update_status nid st d)) = map news_id (naver_news d)"
proof -
  show "crawled_news (update_status nid st d) = crawled_news d"
    by (simp add: update_status_def)
  have "news_id \<circ> (\<lambda>r. if news_id r = nid then r\<lparr>crawl_status := st\<rparr> else r) = news_id"
    by (rule ext) simp
  then show "map news_id (naver_news (update_status nid st d)) = map news_id (naver_news d)"
    by (simp add: update_status_def)
qed

lemma update_status_sets:
  assumes "r \<in> set (naver_news (update_status nid st d))" "news_id r = nid"
  shows "crawl_status r = st"
proof -
  from assms(1)
  have "r \<in> (\<lambda>r. if news_id r = nid then r\<lparr>crawl_status := st\<rparr> else r) ` set (naver_news d)"
    by (simp add: update_status_def)
  then obtain r0 where r0: "r = (if news_id r0 = nid then r0\<lparr>crawl_status := st\<rparr> else r0)"
    by (rule imageE)
  show ?thesis
  proof (cases "news_id r0 = nid")
    case True
    with r0 show ?thesis by simp
  next
    case False
    with r0 assms(2) show ?thesis by simp
  qed
qed

lemma claimable_update_claim: "claimable nid d \<Longrightarrow> claimable nid (update_claim nid d)"
  by (simp add: claimable_def content_rows_def update_claim_keeps)

lemma content_rows_present:
  "nid \<in> set (map c_news_id (crawled_news d)) \<longleftrightarrow> content_rows nid d \<noteq> []"
proof -
  have "content_rows nid d \<noteq> [] \<longleftrightarrow> (\<exists>c \<in> set (crawled_news d). c_news_id c = nid)"
    by (simp add: content_rows_def filter_empty_conv)
  moreover have "nid \<in> set (map c_news_id (crawled_news d))
      \<longleftrightarrow> (\<exists>c \<in> set (crawled_news d). c_news_id c = nid)"
    by (auto simp: image_iff)
  ultimately show ?thesis by simp
qed

lemma settled_update_status:
  assumes "nid \<in> set (map news_id (naver_news d))" "length (content_rows nid d) = 1"
  shows "settled nid (update_status nid crawl_success d)"
proof -
  have "content_rows nid (update_status nid crawl_success d) = content_rows nid d"
    by (simp add: content_rows_def update_status_keeps)
  moreover have "\<forall>r \<in> set (naver_news (update_status nid crawl_success d)).
      news_id r = nid \<longrightarrow> crawl_status r = crawl_success"
    by (intro ballI impI) (rule update_status_sets)
  ultimately show ?thesis
    using assms by (simp add: settled_def claimable_def update_status_keeps)
qed

lemma settled_after_finalize:
  assumes "claimable nid d"
  shows "settled nid
     (update_status nid crawl_success
        (if nid \<in> set (map c_news_id (crawled_news d)) \<or>
            nid \<notin> set (map news_id (naver_news d))
         then d
         else d\<lparr>crawled_news := crawled_news d @
                [\<lparr>c_news_id = nid, content_text = body, c_crawler_version = v,
                  response_time_ms = ms, crawled_at = t\<rparr>]\<rparr>))"
proof (cases "content_rows nid d = []")
  case True
  then have absent: "nid \<notin> set (map c_news_id (crawled_news d))"
    using content_rows_present[of nid d] by blast
  have known: "nid \<in> set (map news_id (naver_news d))"
    using assms by (simp add: claimable_def)
  let ?d1 = "d\<lparr>crawled_news := crawled_news d @
                [\<lparr>c_news_id = nid, content_text = body, c_crawler_version = v,
                  response_time_ms = ms, crawled_at = t\<rparr>]\<rparr>"
  have "length (content_rows nid ?d1) = 1"
    using True by (simp add: content_rows_def)
  moreover have "nid \<in> set (map news_id (naver_news ?d1))"
    using known by simp
  ultimately have "settled nid (update_status nid crawl_success ?d1)"
    by (rule settled_update_status[rotated])
  then show ?thesis
    using absent known by (simp only: if_False simp_thms)
next
  case False
  then have present: "nid \<in> set (map c_news_id (crawled_news d))"
    using content_rows_present[of nid d] by blast
  from False assms have "length (content_rows nid d) = 1"
    unfolding claimable_def by (cases "content_rows nid d") auto
  moreover have "nid \<in> set (map news_id (naver_news d))"
    using assms by (simp add: claimable_def)
  ultimately have "settled nid (update_status nid crawl_success d)"
    by (rule settled_update_status[rotated])
  then show ?thesis
    using present by (simp only: if_True simp_thms)
qed

lemma worker_step_advance:
  assumes quiet: "\<forall>s. store_error w s = None"
    and fetched: "fst (crawl_article self w u) \<noteq> None"
    and ok: "claimable nid d" "p \<noteq> Finished failed"
  shows "\<exists>d1. worker_step (self, w, (nid, u, t)) (p, d) = (advance p, d1) \<and> claimable nid d1 \<and>
              (advance p = Finished success \<longrightarrow> p \<noteq> Finished success \<longrightarrow> settled nid d1) \<and>
              (p = Finished success \<longrightarrow> d1 = d)"
proof (cases p)
  case Unclaimed
  then show ?thesis
    using quiet ok by (simp add: worker_step_def claim_ok advance_def claimable_update_claim)
next
  case Claimed
  obtain body ms where ca: "crawl_article self w u = (Some body, ms)"
    using fetched by (cases "crawl_article self w u") auto
  have fin: "finalize self w (nid, u, t) d =
     (success,
      update_status nid crawl_success
        (if nid \<in> set (map c_news_id (crawled_news d)) \<or>
            nid \<notin> set (map news_id (naver_news d))
         then d
         else d\<lparr>crawled_news := crawled_news d @
                [\<lparr>c_news_id = nid, content_text = body,
                  c_crawler_version = crawler_version self,
                  response_time_ms = ms, crawled_at = now w\<rparr>]\<rparr>))"
    using finalize_text_ok[OF ca] quiet by simp
  have st: "settled nid (snd (finalize self w (nid, u, t) d))"
    unfolding fin snd_conv by (rule settled_after_finalize[OF ok(1)])
  have "fst (finalize self w (nid, u, t) d) = success"
    unfolding fin by simp
  then have ws: "worker_step (self, w, (nid, u, t)) (Claimed, d) =
      (Finished success, snd (finalize self w (nid, u, t) d))"
    by (cases "finalize self w (nid, u, t) d") (simp add: worker_step_def)
  from st have "claimable nid (snd (finalize self w (nid, u, t) d))"
    by (simp add: settled_def)
  with st ws Claimed show ?thesis
    by (simp add: advance_def)
next
  case (Finished out)
  with ok(2) have "out = success" by (cases out) auto
  with Finished ok(1) show ?thesis
    by (simp add: worker_step_def advance_def)
qed

lemma advance_not_failed: "p \<noteq> Finished failed \<Longrightarrow> advance p \<noteq> Finished failed"
  by (cases p) (simp_all add: advance_def)

lemma advance_finished: "(advance ^^ n) (Finished out) = Finished out"
  by (induction n) (simp_all add: advance_def)

lemma advance_twice: "2 \<le> n \<Longrightarrow> (advance ^^ n) Unclaimed = Finished success"
proof -
  assume "2 \<le> n"
  then obtain k where "n = k + 2"
    by (metis add.commute le_Suc_ex)
  then have "(advance ^^ n) Unclaimed = (advance ^^ k) ((advance ^^ 2) Unclaimed)"
    by (simp only: funpow_add o_apply)
  also have "(advance ^^ 2) Unclaimed = Finished success"
    by (simp add: numeral_2_eq_2 advance_def)
  finally show ?thesis
    by (simp add: advance_finished)
qed

lemma race_advance:
  assumes a: "a = (selfA, wA, (nid, uA, tA))" and b: "b = (selfB, wB, (nid, uB, tB))"
    and quietA: "\<forall>s. store_error wA s = None" and quietB: "\<forall>s. store_error wB s = None"
    and fetchedA: "fst (crawl_article selfA wA uA) \<noteq> None"
    and fetchedB: "fst (crawl_article selfB wB uB) \<noteq> None"
  shows "claimable nid d \<Longrightarrow> pa \<noteq> Finished failed \<Longrightarrow> pb \<noteq> Finished failed \<Longrightarrow>
         (pa = Finished success \<and> pb = Finished success \<longrightarrow> settled nid d) \<Longrightarrow>
         \<exists>d1. race a b sched (pa, pb, d) =
                ((advance ^^ length (filter (\<lambda>turn. turn) sched)) pa,
                 (advance ^^ length (filter (\<lambda>turn. \<not> turn) sched)) pb, d1) \<and>
              ((advance ^^ length (filter (\<lambda>turn. turn) sched)) pa = Finished success \<and>
               (advance ^^ length (filter (\<lambda>turn. \<not> turn) sched)) pb = Finished success \<longrightarrow> settled nid d1)"
proof (induction sched arbitrary: pa pb d)
  case Nil
  then show ?case by simp
next
  case (Cons first sched)
  show ?case
  proof (cases first)
    case True
    obtain d1 where step: "worker_step a (pa, d) = (advance pa, d1)" "claimable nid d1"
        "advance pa = Finished success \<longrightarrow> pa \<noteq> Finished success \<longrightarrow> settled nid d1"
        "pa = Finished success \<longrightarrow> d1 = d"
      using worker_step_advance[OF quietA fetchedA Cons.prems(1,2), of tA] unfolding a by blast
    have inv: "advance pa = Finished success \<and> pb = Finished success \<longrightarrow> settled nid d1"
      using step(3,4) Cons.prems(4) by (cases "pa = Finished success") auto
    obtain d2 where rest: "race a b sched (advance pa, pb, d1) =
          ((advance ^^ length (filter (\<lambda>turn. turn) sched)) (advance pa),
           (advance ^^ length (filter (\<lambda>turn. \<not> turn) sched)) pb, d2)"
        "(advance ^^ length (filter (\<lambda>turn. turn) sched)) (advance pa) = Finished success \<and>
         (advance ^^ length (filter (\<lambda>turn. \<not> turn) sched)) pb = Finished success \<longrightarrow> settled nid d2"
      using Cons.IH[OF step(2) advance_not_failed[OF Cons.prems(2)] Cons.prems(3) inv] by blast
    show ?thesis
      using True step(1) rest by (simp add: funpow_swap1)
  next
    case False
    obtain d1 where step: "worker_step b (pb, d) = (advance pb, d1)" "claimable nid d1"
        "advance pb = Finished success \<longrightarrow> pb \<noteq> Finished success \<longrightarrow> settled nid d1"
        "pb = Finished success \<longrightarrow> d1 = d"
      using worker_step_advance[OF quietB fetchedB Cons.prems(1,3), of tB] unfolding b by blast
    have inv: "pa = Finished success \<and> advance pb = Finished success \<longrightarrow> settled nid d1"
      using step(3,4) Cons.prems(4) by (cases "pb = Finished success") auto
    obtain d2 where rest: "race a b sched (pa, advance pb, d1) =
          ((advance ^^ length (filter (\<lambda>turn. turn) sched)) pa,
           (advance ^^ length (filter (\<lambda>turn. \<not> turn) sched)) (advance pb), d2)"
        "(advance ^^ length (filter (\<lambda>turn. turn) sched)) pa = Finished success \<and>
         (advance ^^ length (filter (\<lambda>turn. \<not> turn) sched)) (advance pb) = Finished success \<longrightarrow> settled nid d2"
      using Cons.IH[OF step(2) Cons.prems(2) advance_not_failed[OF Cons.prems(3)] inv] by blast
    show ?thesis
      using False step(1) rest by (simp add: funpow_swap1)
  qed
qed

text \<open>
  Claim C5: two workers race to insert the content row of one article. Whatever the
  order of their transactions, once each has had its two turns exactly one content row
  is stored for the article, the article is \<open>crawl_success\<close>, and both workers report
  success: the loser's duplicate-key error is swallowed.
\<close>

theorem racing_workers_store_one_row:
  assumes "a = (selfA, wA, (nid, uA, tA))" and "b = (selfB, wB, (nid, uB, tB))"
    and "\<forall>s. store_error wA s = None" and "\<forall>s. store_error wB s = None"
    and "fst (crawl_article selfA wA uA) \<noteq> None"
    and "fst (crawl_article selfB wB uB) \<noteq> None"
    and "nid \<in> set (map news_id (naver_news store))"
    and "nid \<notin> set (map c_news_id (crawled_news store))"
    and "2 \<le> length (filter (\<lambda>turn. turn) sched)" and "2 \<le> length (filter (\<lambda>turn. \<not> turn) sched)"
  shows "\<exists>store1. race a b sched (Unclaimed, Unclaimed, store) =
                    (Finished success, Finished success, store1) \<and>
           length (filter (\<lambda>c. c_news_id c = nid) (crawled_news store1)) = 1 \<and>
           (\<forall>r \<in> set (naver_news store1). news_id r = nid \<longrightarrow> crawl_status r = crawl_success)"
proof -
  have "content_rows nid store = []"
    using assms(8) content_rows_present[of nid store] by blast
  then have start: "claimable nid store"
    using assms(7) by (simp add: claimable_def)
  obtain store1 where r: "race a b sched (Unclaimed, Unclaimed, store) =
        ((advance ^^ length (filter (\<lambda>turn. turn) sched)) Unclaimed,
         (advance ^^ length (filter (\<lambda>turn. \<not> turn) sched)) Unclaimed, store1)"
      "(advance ^^ length (filter (\<lambda>turn. turn) sched)) Unclaimed = Finished success \<and>
       (advance ^^ length (filter (\<lambda>turn. \<not> turn) sched)) Unclaimed = Finished success \<longrightarrow> settled nid store1"
    using race_advance[OF assms(1-6) start, of Unclaimed Unclaimed sched] by auto
  have both: "(advance ^^ length (filter (\<lambda>turn. turn) sched)) Unclaimed = Finished success"
    "(advance ^^ length (filter (\<lambda>turn. \<not> turn) sched)) Unclaimed = Finished success"
    using assms(9,10) by (simp_all add: advance_twice)
  with r have "settled nid store1" by simp
  then show ?thesis
    using r(1) both by (auto simp: settled_def content_rows_def)
qed

theorem racing_workers_store_one_row_witness:
  "(\<forall>s. store_error hello_world s = None) \<and>
   fst (crawl_article (crawler_with []) hello_world ''https://example.org/b'') \<noteq> None \<and>
   1 \<in> set (map news_id (naver_news one_article)) \<and>
   1 \<notin> set (map c_news_id (crawled_news one_article)) \<and>
   2 \<le> length (filter (\<lambda>turn. turn) [True, False, True, False]) \<and>
   2 \<le> length (filter (\<lambda>turn. \<not> turn) [True, False, True, False]) \<and>
   (\<exists>store1.
      race (crawler_with [], hello_world, (1, ''https://example.org/b'', ''t''))
           (crawler_with [], hello_world, (1, ''https://example.org/b'', ''t''))
           [True, False, True, False] (Unclaimed, Unclaimed, one_article) =
        (Finished success, Finished success, store1) \<and>
      length (filter (\<lambda>c. c_news_id c = 1) (crawled_news store1)) = 1 \<and>
      (\<forall>r \<in> set (naver_news store1). news_id r = 1 \<longrightarrow> crawl_status r = crawl_success))"
proof -
  have q: "\<forall>s. store_error hello_world s = None"
    by (simp add: hello_world_def quiet_world_def)
  have f: "fst (crawl_article (crawler_with []) hello_world ''https://example.org/b'') \<noteq> None"
    by (simp add: crawl_article_def hello_world_def quiet_world_def strip_eval)
  have i: "1 \<in> set (map news_id (naver_news one_article))"
    "1 \<notin> set (map c_news_id (crawled_news one_article))"
    by (simp_all add: one_article_def store_of_def article_def)
  have s: "2 \<le> length (filter (\<lambda>turn. turn) [True, False, True, False])"
    "2 \<le> length (filter (\<lambda>turn. \<not> turn) [True, False, True, False])"
    by simp_all
  show ?thesis
    using racing_workers_store_one_row[OF refl refl q q f f i s] q f i s by blast
qed

section \<open>The batch insert of the harvester\<close>

text \<open>
  Claim C7 says that a database error on one item of a batch rolls back and skips that
  item only, and that the returned count is the number of rows the store inserted. The
  batch is one transaction and \<open>self.conn.rollback()\<close> discards all of it so far: of the
  three new items below the store rejects the second; the first, already counted, is
  rolled back with it. The call returns 2 and the store holds one row.
\<close>

theorem insert_error_rolls_back_earlier_items:
  "insert_news (quiet_world\<lparr>store_error := rejects_b\<rparr>)
     [parsed ''https://example.org/a'', parsed ''https://example.org/b'',
      parsed ''https://example.org/c'']
     (connect (store_of [])) =
   (2, connect (store_of [(article 1 ''https://example.org/c'' pending)]))"
  by (simp add: insert_news_def insert_news_row_def fresh_id_def rejects_b_def parsed_def
        quiet_world_def connect_def commit_def rollback_def store_of_def article_def)

lemma card_new_urls_seen:
  "u \<in> U \<Longrightarrow> card (insert u S - U) = card (S - U)"
  by (simp add: insert_Diff_if)

lemma card_new_urls_fresh:
  assumes "finite S" "u \<notin> U"
  shows "card (insert u S - U) = Suc (card (S - insert u U))"
proof -
  have "insert u S - U = insert u (S - insert u U)"
    using assms(2) by auto
  moreover have "u \<notin> S - insert u U" by simp
  moreover have "finite (S - insert u U)" using assms(1) by simp
  ultimately show ?thesis by simp
qed

lemma insert_loop_quiet:
  assumes quiet: "\<forall>u. store_error w (InsertNews u) = None"
  shows "\<exists>d. insert_loop w its (k, c) =
           (k + card (set (map p_url its) - set (map url (naver_news (working c)))),
            c\<lparr>working := d\<rparr>) \<and>
         set (map url (naver_news d)) =
           set (map url (naver_news (working c))) \<union> set (map p_url its) \<and>
         (distinct (map url (naver_news (working c))) \<longrightarrow> distinct (map url (naver_news d))) \<and>
         (set (map p_url its) \<subseteq> set (map url (naver_news (working c))) \<longrightarrow> d = working c)"
proof (induction its arbitrary: k c)
  case Nil
  show ?case by (intro exI[of _ "working c"]) simp
next
  case (Cons it its)
  let ?U = "set (map url (naver_news (working c)))"
  show ?case
  proof (cases "p_url it \<in> ?U")
    case True
    obtain d where d: "insert_loop w its (k, c) =
           (k + card (set (map p_url its) - ?U), c\<lparr>working := d\<rparr>)"
        "set (map url (naver_news d)) = ?U \<union> set (map p_url its)"
        "distinct (map url (naver_news (working c))) \<longrightarrow> distinct (map url (naver_news d))"
        "set (map p_url its) \<subseteq> ?U \<longrightarrow> d = working c"
      using Cons.IH[of k c] by blast
    have step: "insert_loop w (it # its) (k, c) = insert_loop w its (k, c)"
      using quiet True by (simp add: insert_news_row_def)
    have cnt: "card (set (map p_url (it # its)) - ?U) = card (set (map p_url its) - ?U)"
      using card_new_urls_seen[OF True, of "set (map p_url its)"] by simp
    show ?thesis
      using d True unfolding step cnt by (intro exI[of _ d]) auto
  next
    case False
    let ?row = "\<lparr>news_id = fresh_id (working c), title = p_title it, pub_date = p_pub_date it,
                  url = p_url it, search_keyword = p_search_keyword it,
                  api_request_date = p_api_request_date it, crawl_status = pending,
                  url_filter_version = None, crawl_attempt_count = 0\<rparr>"
    let ?d1 = "(working c)\<lparr>naver_news := naver_news (working c) @ [?row]\<rparr>"
    let ?c1 = "c\<lparr>working := ?d1\<rparr>"
    have step: "insert_loop w (it # its) (k, c) = insert_loop w its (k + 1, ?c1)"
      using quiet False by (simp add: insert_news_row_def)
    have U1: "set (map url (naver_news (working ?c1))) = insert (p_url it) ?U"
      by simp
    obtain d where d: "insert_loop w its (k + 1, ?c1) =
           (k + 1 + card (set (map p_url its) - insert (p_url it) ?U), ?c1\<lparr>working := d\<rparr>)"
        "set (map url (naver_news d)) = insert (p_url it) ?U \<union> set (map p_url its)"
        "distinct (map url (naver_news (working ?c1))) \<longrightarrow> distinct (map url (naver_news d))"
      using Cons.IH[of "k + 1" ?c1] unfolding U1 by blast
    have cnt: "card (set (map p_url (it # its)) - ?U) =
               Suc (card (set (map p_url its) - insert (p_url it) ?U))"
      using card_new_urls_fresh[OF _ False, of "set (map p_url its)"] by simp
    have dist: "distinct (map url (naver_news (working c))) \<longrightarrow>
                distinct (map url (naver_news (working ?c1)))"
      using False by simp
    have notsub: "\<not> set (map p_url (it # its)) \<subseteq> ?U"
      using False by simp
    have "insert_loop w (it # its) (k, c) =
           (k + card (set (map p_url (it # its)) - ?U), c\<lparr>working := d\<rparr>)"
      unfolding step d(1) cnt by simp
    moreover have "set (map url (naver_news d)) = ?U \<union> set (map p_url (it # its))"
      unfolding d(2) by auto
    moreover have "distinct (map url (naver_news (working c))) \<longrightarrow> distinct (map url (naver_news d))"
      using d(3) dist by blast
    ultimately show ?thesis
      using notsub by blast
  qed
qed

lemma one_row_per_key:
  "distinct (map f xs) \<Longrightarrow> y \<in> set (map f xs) \<Longrightarrow> length (filter (\<lambda>x. f x = y) xs) = 1"
proof (induction xs)
  case Nil
  then show ?case by simp
next
  case (Cons x xs)
  show ?case
  proof (cases "f x = y")
    case True
    with Cons.prems(1) have "y \<notin> f ` set xs" by simp
    then have "\<forall>z \<in> set xs. f z \<noteq> y" by blast
    then have "filter (\<lambda>x. f x = y) xs = []" by (simp add: filter_empty_conv)
    with True show ?thesis by simp
  next
    case False
    with Cons show ?thesis by auto
  qed
qed

lemma insert_news_quiet:
  assumes quiet: "\<forall>u. store_error w (InsertNews u) = None"
  shows "\<exists>d. insert_news w its (connect store) =
           (card (set (map p_url its) - set (map url (naver_news store))), connect d) \<and>
         set (map url (naver_news d)) = set (map url (naver_news store)) \<union> set (map p_url its) \<and>
         (distinct (map url (naver_news store)) \<longrightarrow> distinct (map url (naver_news d))) \<and>
         (set (map p_url its) \<subseteq> set (map url (naver_news store)) \<longrightarrow> d = store)"
proof (cases "its = []")
  case True
  then show ?thesis
    by (intro exI[of _ store]) (simp add: insert_news_def)
next
  case False
  obtain d where d: "insert_loop w its (0, connect store) =
           (0 + card (set (map p_url its) - set (map url (naver_news (working (connect store))))),
            (connect store)\<lparr>working := d\<rparr>)"
      "set (map url (naver_news d)) =
           set (map url (naver_news (working (connect store)))) \<union> set (map p_url its)"
      "distinct (map url (naver_news (working (connect store)))) \<longrightarrow> distinct (map url (naver_news d))"
      "set (map p_url its) \<subseteq> set (map url (naver_news (working (connect store)))) \<longrightarrow>
         d = working (connect store)"
    using insert_loop_quiet[OF quiet, of its 0 "connect store"] by blast
  have w: "working (connect store) = store" by (simp add: connect_def)
  have "insert_news w its (connect store) =
           (card (set (map p_url its) - set (map url (naver_news store))), connect d)"
    using False d(1) unfolding w by (simp add: insert_news_def connect_def commit_def)
  then show ?thesis
    using d(2,3,4) unfolding w by blast
qed

text \<open>
  Claim C2: inserting a URL that the store already holds, or the same URL twice in one
  batch, leaves exactly one article record for it. The conflicting insert raises no
  error and counts 0: the returned count is the number of distinct URLs that were new,
  and inserting the same batch again returns 0 and changes nothing. (The store is taken
  to raise no error of its own on these inserts; that case is claim C7.)
\<close>

theorem insert_news_idempotent:
  assumes "distinct (map url (naver_news store))"
    and "\<forall>u. store_error w (InsertNews u) = None"
  shows "\<exists>store1.
     insert_news w news_items (connect store) =
       (card (set (map p_url news_items) - set (map url (naver_news store))), connect store1) \<and>
     (\<forall>it \<in> set news_items.
        length (filter (\<lambda>r. url r = p_url it) (naver_news store1)) = 1) \<and>
     (\<forall>r \<in> set (naver_news store).
        length (filter (\<lambda>r1. url r1 = url r) (naver_news store1)) = 1) \<and>
     insert_news w news_items (connect store1) = (0, connect store1)"
proof -
  obtain d where d: "insert_news w news_items (connect store) =
           (card (set (map p_url news_items) - set (map url (naver_news store))), connect d)"
      "set (map url (naver_news d)) =
         set (map url (naver_news store)) \<union> set (map p_url news_items)"
      "distinct (map url (naver_news d))"
    using insert_news_quiet[OF assms(2), of news_items store] assms(1) by blast
  obtain d2 where d2: "insert_news w news_items (connect d) =
           (card (set (map p_url news_items) - set (map url (naver_news d))), connect d2)"
      "set (map p_url news_items) \<subseteq> set (map url (naver_news d)) \<longrightarrow> d2 = d"
    using insert_news_quiet[OF assms(2), of news_items d] by blast
  have sub: "set (map p_url news_items) \<subseteq> set (map url (naver_news d))"
    unfolding d(2) by blast
  then have "set (map p_url news_items) - set (map url (naver_news d)) = {}"
    by blast
  with d2 sub have again: "insert_news w news_items (connect d) = (0, connect d)"
    by simp
  have one: "length (filter (\<lambda>r. url r = u) (naver_news d)) = 1"
    if "u \<in> set (map url (naver_news d))" for u
    using one_row_per_key[OF d(3) that] .
  have "\<forall>it \<in> set news_items. length (filter (\<lambda>r. url r = p_url it) (naver_news d)) = 1"
    using one sub by auto
  moreover have "\<forall>r \<in> set (naver_news store).
        length (filter (\<lambda>r1. url r1 = url r) (naver_news d)) = 1"
    using one d(2) by auto
  ultimately show ?thesis
    using d(1) again by blast
qed

theorem insert_news_idempotent_witness:
  "distinct (map url (naver_news (store_of [article 1 ''https://example.org/a'' crawl_success]))) \<and>
   (\<forall>u. store_error quiet_world (InsertNews u) = None) \<and>
   (\<exists>store1.
     insert_news quiet_world
        [parsed ''https://example.org/a'', parsed ''https://example.org/b'',
         parsed ''https://example.org/b'']
        (connect (store_of [article 1 ''https://example.org/a'' crawl_success])) =
       (1, connect store1) \<and>
     (\<forall>it \<in> set [parsed ''https://example.org/a'', parsed ''https://example.org/b'',
                   parsed ''https://example.org/b''].
        length (filter (\<lambda>r. url r = p_url it) (naver_news store1)) = 1) \<and>
     insert_news quiet_world
        [parsed ''https://example.org/a'', parsed ''https://example.org/b'',
         parsed ''https://example.org/b'']
        (connect store1) = (0, connect store1))"
proof -
  let ?store = "store_of [article 1 ''https://example.org/a'' crawl_success]"
  let ?items = "[parsed ''https://example.org/a'', parsed ''https://example.org/b'',
                 parsed ''https://example.org/b'']"
  have h1: "distinct (map url (naver_news ?store))"
    by (simp add: store_of_def)
  have h2: "\<forall>u. store_error quiet_world (InsertNews u) = None"
    by (simp add: quiet_world_def)
  have n: "card (set (map p_url ?items) - set (map url (naver_news ?store))) = 1"
    by (simp add: parsed_def store_of_def article_def insert_Diff_if)
  show ?thesis
    using insert_news_idempotent[OF h1 h2, of ?items] h1 h2 unfolding n by blast
qed

section \<open>The collect loop of the harvester\<close>

lemma dedup_parse_seen:
  "dedup_parse w q existing its (acc, seen) = Inr (new, seen1) \<Longrightarrow>
   seen \<subseteq> seen1 \<and> (\<forall>it \<in> set its. \<exists>u. it ''link'' = Some u \<and> u \<in> existing \<union> seen1)"
proof (induction its arbitrary: acc seen)
  case Nil
  then show ?case by simp
next
  case (Cons it its)
  from Cons.prems obtain u where u: "it ''link'' = Some u"
    by (cases "it ''link''") auto
  show ?case
  proof (cases "u \<in> existing \<or> u \<in> seen")
    case True
    with Cons.prems u have "dedup_parse w q existing its (acc, seen) = Inr (new, seen1)"
      by simp
    from Cons.IH[OF this] True u show ?thesis by auto
  next
    case False
    with Cons.prems u obtain p where
      "dedup_parse w q existing its (acc @ [p], insert u seen) = Inr (new, seen1)"
      by (cases "parse_item w it q") auto
    from Cons.IH[OF this] u show ?thesis by auto
  qed
qed

lemma dedup_parse_all_seen:
  "\<forall>it \<in> set its. \<exists>u. it ''link'' = Some u \<and> u \<in> existing \<union> seen \<Longrightarrow>
   dedup_parse w q existing its (acc, seen) = Inr (acc, seen)"
  by (induction its) auto

lemma insert_news_Nil: "insert_news w [] c = (0, c)"
  by (simp add: insert_news_def)

lemma collect_iter_repeat:
  assumes "search_news w q (min 100 (t - collected h)) (start h) = Some (Some its)"
    and "its \<noteq> []"
    and "\<forall>it \<in> set its. \<exists>u. it ''link'' = Some u \<and> u \<in> existing \<union> collected_urls h"
  shows "\<exists>h1. collect_iter w q t existing h = Break h1 \<and>
           log_lines h1 = log_lines h @
             [Progress (collected h + int (length its)) 0 (inserted_total h), SameTotal]"
proof -
  obtain it its1 where its: "its = it # its1"
    using assms(2) by (cases its) auto
  have dd: "dedup_parse w q existing (it # its1) ([], collected_urls h) = Inr ([], collected_urls h)"
    using dedup_parse_all_seen[OF assms(3), of w q "[]"] unfolding its .
  show ?thesis
    using assms(1) unfolding its collect_iter_def Let_def
    by (simp add: dd insert_news_Nil del: dedup_parse.simps)
qed

lemma collect_iter_first:
  assumes "search_news w q (min 100 (t - collected h)) (start h) = Some (Some its)"
    and "its \<noteq> []"
    and "start h + min 100 (t - collected h) \<le> 1000"
  shows "(\<exists>e. collect_iter w q t existing h = Raise e h) \<or>
         (\<exists>h1. collect_iter w q t existing h = Break h1 \<and>
            log_lines h1 = log_lines h @
              [Progress (collected h + int (length its)) 0 (inserted_total h), SameTotal]) \<or>
         (\<exists>h1 i. collect_iter w q t existing h = Next h1 \<and> 0 < i \<and>
            log_lines h1 = log_lines h @
              [Progress (collected h + int (length its)) i (inserted_total h + i)] \<and>
            inserted_total h1 = inserted_total h + i \<and>
            collected h1 = collected h + int (length its) \<and>
            (\<forall>it \<in> set its. \<exists>u. it ''link'' = Some u \<and> u \<in> existing \<union> collected_urls h1))"
proof -
  obtain it its1 where its: "its = it # its1"
    using assms(2) by (cases its) auto
  show ?thesis
  proof (cases "dedup_parse w q existing (it # its1) ([], collected_urls h)")
    case (Inl e)
    then have "collect_iter w q t existing h = Raise e h"
      using assms(1) unfolding its collect_iter_def Let_def by (simp del: dedup_parse.simps)
    then show ?thesis by blast
  next
    case (Inr p)
    obtain new seen where p: "p = (new, seen)" by (cases p)
    obtain i c where ins: "insert_news w new (hconn h) = (i, c)"
      by (cases "insert_news w new (hconn h)")
    have cov: "\<forall>it \<in> set its. \<exists>u. it ''link'' = Some u \<and> u \<in> existing \<union> seen"
      using dedup_parse_seen[OF Inr[unfolded p]] unfolding its by blast
    show ?thesis
    proof (cases "i = 0")
      case True
      then have "\<exists>h1. collect_iter w q t existing h = Break h1 \<and>
            log_lines h1 = log_lines h @
              [Progress (collected h + int (length its)) 0 (inserted_total h), SameTotal]"
        using assms(1) Inr p ins unfolding its collect_iter_def Let_def
        by (simp del: dedup_parse.simps)
      then show ?thesis by blast
    next
      case False
      then have "\<exists>h1. collect_iter w q t existing h = Next h1 \<and> 0 < i \<and>
            log_lines h1 = log_lines h @
              [Progress (collected h + int (length its)) i (inserted_total h + i)] \<and>
            inserted_total h1 = inserted_total h + i \<and>
            collected h1 = collected h + int (length its) \<and>
            collected_urls h1 = seen"
        using assms(1,3) Inr p ins unfolding its collect_iter_def Let_def
        by (simp del: dedup_parse.simps)
      then show ?thesis using cov by blast
    qed
  qed
qed

text \<open>
  Claim C3: with a provider that returns the same items on every page, \<open>collect\<close> stops
  after the first iteration whose cumulative inserted total did not increase. The log of
  the loop has one \<open>Progress\<close> line per iteration (collected, inserted, total): there are
  at most two iterations, a second one happens only when the first inserted something,
  and it inserts nothing and ends the loop.
\<close>

theorem collect_stops_on_repeating_provider:
  assumes "api_get w = (\<lambda>q d s. Inr (Some its))"
  shows "log_lines (snd (collect_state w query total_count store)) = [] \<or>
         log_lines (snd (collect_state w query total_count store)) = [NoMoreResults] \<or>
         (\<exists>c. log_lines (snd (collect_state w query total_count store)) =
                [Progress c 0 0, SameTotal]) \<or>
         (\<exists>c i. 0 < i \<and>
                log_lines (snd (collect_state w query total_count store)) = [Progress c i i]) \<or>
         (\<exists>c i c1. 0 < i \<and>
                log_lines (snd (collect_state w query total_count store)) =
                  [Progress c i i, Progress c1 0 i, SameTotal])"
proof -
  let ?h0 = "\<lparr>collected = 0, inserted_total = 0, start = 1, collected_urls = {},
              hconn = connect store, log_lines = []\<rparr>"
  have sn: "search_news w q d s = Some (Some its)" for q d s
    using assms by (simp add: search_news_def)
  show ?thesis
  proof (cases "get_existing_urls w (hconn ?h0)")
    case (Inl e)
    then have "collect_state w query total_count store = (Some e, ?h0)"
      by (simp add: collect_state_def)
    then show ?thesis by simp
  next
    case (Inr existing)
    then have cs: "collect_state w query total_count store =
        collect_loop w query total_count existing ?h0"
      by (simp add: collect_state_def)
    show ?thesis
    proof (cases "0 < total_count")
      case False
      then have "collect_loop w query total_count existing ?h0 = (None, ?h0)"
        by (subst collect_loop.simps) simp
      then show ?thesis unfolding cs by simp
    next
      case True
      have unfold0: "collect_loop w query total_count existing ?h0 =
          (case collect_iter w query total_count existing ?h0 of
             Break h1 \<Rightarrow> (None, h1)
           | Raise e h1 \<Rightarrow> (Some e, h1)
           | Next h1 \<Rightarrow> collect_loop w query total_count existing h1)"
        using True by (subst collect_loop.simps) simp
      show ?thesis
      proof (cases "its = []")
        case True
        have "collect_iter w query total_count existing ?h0 =
            Break (?h0\<lparr>log_lines := log_lines ?h0 @ [NoMoreResults]\<rparr>)"
          unfolding collect_iter_def Let_def sn True by simp
        then show ?thesis unfolding cs unfold0 by simp
      next
        case False
        have room: "start ?h0 + min 100 (total_count - collected ?h0) \<le> 1000"
          by simp
        from collect_iter_first[OF sn False room, of query existing]
        consider
            (raised) e where "collect_iter w query total_count existing ?h0 = Raise e ?h0"
          | (stopped) h1 where "collect_iter w query total_count existing ?h0 = Break h1"
              "log_lines h1 = [Progress (int (length its)) 0 0, SameTotal]"
          | (went_on) h1 i where "collect_iter w query total_count existing ?h0 = Next h1" "0 < i"
              "log_lines h1 = [Progress (int (length its)) i i]"
              "inserted_total h1 = i"
              "\<forall>it \<in> set its. \<exists>u. it ''link'' = Some u \<and> u \<in> existing \<union> collected_urls h1"
          by auto
        then show ?thesis
        proof cases
          case raised
          then show ?thesis unfolding cs unfold0 by simp
        next
          case stopped
          then show ?thesis unfolding cs unfold0 by simp
        next
          case went_on
          show ?thesis
          proof (cases "collected h1 < total_count")
            case False
            then have "collect_loop w query total_count existing h1 = (None, h1)"
              by (subst collect_loop.simps) simp
            then show ?thesis
              unfolding cs unfold0 using went_on(1,2,3) by simp
          next
            case True
            obtain h2 where h2: "collect_iter w query total_count existing h1 = Break h2"
                "log_lines h2 = log_lines h1 @
                   [Progress (collected h1 + int (length its)) 0 (inserted_total h1), SameTotal]"
              using collect_iter_repeat[OF sn False went_on(5)] by blast
            have "collect_loop w query total_count existing h1 = (None, h2)"
              using True h2(1) by (subst collect_loop.simps) simp
            then show ?thesis
              unfolding cs unfold0 using went_on(1,2,3,4) h2(2) by simp
          qed
        qed
      qed
    qed
  qed
qed

text \<open>The run of the witness, step by step: two requests, one insert.\<close>

lemma repeating_provider_run:
  "log_lines (snd (collect_state repeating_provider ''k'' 1000 (store_of []))) =
     [Progress 1 1 1, Progress 2 0 1, SameTotal]"
proof -
  have sn: "search_news repeating_provider q d s = Some (Some [the_item])" for q d s
    by (simp add: search_news_def repeating_provider_def)
  have link: "the_item ''link'' = Some ''https://example.org/a''"
    by (simp add: the_item_def)
  have parse: "parse_item repeating_provider the_item ''k'' =
      Inr \<lparr>p_title = ''a'', p_pub_date = 0, p_url = ''https://example.org/a'',
           p_search_keyword = ''k'', p_api_request_date = 0\<rparr>"
    by (simp add: parse_item_def the_item_def repeating_provider_def quiet_world_def)
  have quiet: "store_error repeating_provider = (\<lambda>s. None)" "now repeating_provider = 0"
    by (simp_all add: repeating_provider_def quiet_world_def)
  let ?h0 = "\<lparr>collected = 0, inserted_total = 0, start = 1, collected_urls = {},
              hconn = connect (store_of []), log_lines = []\<rparr>"
  let ?row = "\<lparr>news_id = 1, title = ''a'', pub_date = 0, url = ''https://example.org/a'',
               search_keyword = ''k'', api_request_date = 0, crawl_status = pending,
               url_filter_version = None, crawl_attempt_count = 0\<rparr>"
  let ?h1 = "\<lparr>collected = 1, inserted_total = 1, start = 101,
              collected_urls = {''https://example.org/a''},
              hconn = connect (store_of [?row]), log_lines = [Progress 1 1 1]\<rparr>"
  let ?h2 = "\<lparr>collected = 2, inserted_total = 1, start = 101,
              collected_urls = {''https://example.org/a''},
              hconn = connect (store_of [?row]),
              log_lines = [Progress 1 1 1, Progress 2 0 1, SameTotal]\<rparr>"
  have i1: "collect_iter repeating_provider ''k'' 1000 {} ?h0 = Next ?h1"
    unfolding collect_iter_def Let_def sn
    by (simp add: link parse quiet insert_news_def insert_news_row_def fresh_id_def
          connect_def commit_def store_of_def)
  have i2: "collect_iter repeating_provider ''k'' 1000 {} ?h1 = Break ?h2"
    unfolding collect_iter_def Let_def sn
    by (simp add: link insert_news_def)
  have "collect_loop repeating_provider ''k'' 1000 {} ?h1 = (None, ?h2)"
    by (subst collect_loop.simps, subst i2) simp
  then have l0: "collect_loop repeating_provider ''k'' 1000 {} ?h0 = (None, ?h2)"
    by (subst collect_loop.simps, subst i1) simp
  have ge: "get_existing_urls repeating_provider (connect (store_of [])) = Inr {}"
    by (simp add: get_existing_urls_def quiet connect_def store_of_def)
  show ?thesis
    unfolding collect_state_def Let_def
    by (simp add: ge l0 del: collect_loop.simps)
qed

theorem collect_stops_on_repeating_provider_witness:
  "api_get repeating_provider = (\<lambda>q d s. Inr (Some [the_item])) \<and>
   (\<exists>c i c1. 0 < i \<and>
      log_lines (snd (collect_state repeating_provider ''k'' 1000 (store_of []))) =
        [Progress c i i, Progress c1 0 i, SameTotal])"
proof -
  have a: "api_get repeating_provider = (\<lambda>q d s. Inr (Some [the_item]))"
    by (simp add: repeating_provider_def)
  show ?thesis
    using collect_stops_on_repeating_provider[OF a, of "''k''" 1000 "store_of []"] a
    unfolding repeating_provider_run by simp
qed

end
